theory Spec2Isabelle
  imports Main "HOL-Library.Word"
begin

section \<open>Machine types and faults\<close>

text \<open>
  The example is written for Windows, where \<open>unsigned int\<close> has 32 bits; \<open>uint\<close>
  arithmetic wraps modulo \<open>2 ^ 32\<close>. Bytes are \<open>u8\<close>. Sizes of type \<open>size_t\<close> and
  offsets of pointers into an array are natural numbers.

  A C array is a list whose length is the size of the allocation. An access outside of
  the array has no defined behaviour in C; in the model it ends the call with the
  fault \<open>OutOfBounds\<close>, so every function that dereferences a pointer returns a sum.
\<close>

type_synonym uint = "32 word"
type_synonym u8 = "8 word"

datatype fault = OutOfBounds

section \<open>Mutex wrappers\<close>

text \<open>
  \<open>diag_mtx\<close> wraps a Windows critical section, which the thread that owns it may
  enter again; it is free again once that thread has left it as often as it entered it.
  The model follows one thread and keeps the number of times this thread holds the
  critical section: 0 means that the lock is not held.
\<close>

type_synonym diag_mtx = nat

definition diag_os_newmtx :: diag_mtx where
  "diag_os_newmtx = 0"

definition diag_os_lock :: "diag_mtx \<Rightarrow> diag_mtx" where
  "diag_os_lock m = Suc m"

definition diag_os_unlock :: "diag_mtx \<Rightarrow> diag_mtx" where
  "diag_os_unlock m = m - 1"

section \<open>The FIFO\<close>

text \<open>
  \<open>struct fifo_t\<close>. The field \<open>mtx\<close> holds the state of the mutex it points to, and
  \<open>data\<close> holds the array \<open>rawbuf\<close> it points to.
\<close>

record fifo_t =
  mtx :: diag_mtx
  rp :: uint
  wp :: uint
  siz :: uint
  used :: uint
  data :: "u8 list"

text \<open>\<open>init_fifo\<close> assigns every field and checks nothing; it returns \<open>void\<close>.\<close>

definition init_fifo :: "fifo_t \<Rightarrow> uint \<Rightarrow> u8 list \<Rightarrow> fifo_t" where
  "init_fifo f sz rawbuf =
     f\<lparr>mtx := diag_os_newmtx, rp := 0, wp := 0, siz := sz, used := 0, data := rawbuf\<rparr>"

text \<open>
  \<open>fifo_used\<close> locks, then returns \<open>fifo->used\<close>. The call of \<open>diag_os_unlock\<close> is
  written after the \<open>return\<close> statement and is never executed.
\<close>

definition fifo_used :: "fifo_t \<Rightarrow> uint \<times> fifo_t" where
  "fifo_used f = (let f1 = f\<lparr>mtx := diag_os_lock (mtx f)\<rparr> in (used f1, f1))"

text \<open>
  The copy loop of \<open>fifo_wblock\<close>. \<open>si\<close> is the offset of the pointer \<open>src\<close> into the
  caller's array, \<open>w\<close> is the temporary indexer \<open>wp\<close>, \<open>sz\<close> the local copy of
  \<open>fifo->siz\<close>. It returns the final values of \<open>done\<close>, of the indexer and of the
  storage.
\<close>

function wblock_loop ::
  "uint \<Rightarrow> uint \<Rightarrow> u8 list \<Rightarrow> nat \<Rightarrow> uint \<Rightarrow> uint \<Rightarrow> u8 list \<Rightarrow> fault + (uint \<times> uint \<times> u8 list)"
where
  "wblock_loop sz len src si done w dat =
     (if done < len then
        if unat w < length dat \<and> si < length src then
          let dat1 = dat[unat w := src ! si];
              w1 = w + 1;
              si1 = si + 1;
              w2 = (if w1 = sz then 0 else w1)
          in wblock_loop sz len src si1 (done + 1) w2 dat1
        else Inl OutOfBounds
      else Inr (done, w, dat))"
  by pat_completeness auto

lemma unat_inc_less: "(i::uint) < n \<Longrightarrow> unat (i + 1) = Suc (unat i)"
proof -
  assume "i < n"
  then have "i \<noteq> - 1"
    by (metis word_order.extremum_strict)
  then have "1 + i \<noteq> 0"
    by (simp add: eq_neg_iff_add_eq_0 add.commute)
  then have "unat (1 + i) = Suc (unat i)"
    by (rule unatSuc)
  then show ?thesis
    by (simp add: add.commute)
qed

termination wblock_loop
  by (relation "measure (\<lambda>(sz, len, src, si, done, w, dat). unat len - unat done)")
     (auto simp: unat_inc_less word_less_nat_alt)

declare wblock_loop.simps [simp del]

definition fifo_wblock :: "fifo_t \<Rightarrow> u8 list \<Rightarrow> uint \<Rightarrow> fault + (uint \<times> fifo_t)" where
  "fifo_wblock f src len =
     (let sz = siz f;
          f1 = f\<lparr>mtx := diag_os_lock (mtx f)\<rparr>
      in if siz f1 - used f1 < len then
           Inr (0, f1\<lparr>mtx := diag_os_unlock (mtx f1)\<rparr>)
         else
           case wblock_loop sz len src 0 0 (wp f1) (data f1) of
             Inl e \<Rightarrow> Inl e
           | Inr (done, w, dat) \<Rightarrow>
               let f2 = f1\<lparr>data := dat, wp := w, used := used f1 + len\<rparr>
               in Inr (done, f2\<lparr>mtx := diag_os_unlock (mtx f2)\<rparr>))"

text \<open>
  The copy loop of \<open>fifo_rblock\<close>. \<open>di\<close> is the offset of the pointer \<open>dest\<close> into the
  caller's array, \<open>r\<close> is the local \<open>rp\<close>. It returns the final values of \<open>done\<close>, of
  the indexer and of the destination array.
\<close>

function rblock_loop ::
  "uint \<Rightarrow> uint \<Rightarrow> u8 list \<Rightarrow> u8 list \<Rightarrow> nat \<Rightarrow> uint \<Rightarrow> uint \<Rightarrow> fault + (uint \<times> uint \<times> u8 list)"
where
  "rblock_loop sz len dat dest di done r =
     (if done < len then
        if unat r < length dat \<and> di < length dest then
          let dest1 = dest[di := dat ! unat r];
              di1 = di + 1;
              r1 = r + 1;
              r2 = (if r1 = sz then 0 else r1)
          in rblock_loop sz len dat dest1 di1 (done + 1) r2
        else Inl OutOfBounds
      else Inr (done, r, dest))"
  by pat_completeness auto

termination rblock_loop
  by (relation "measure (\<lambda>(sz, len, dat, dest, di, done, r). unat len - unat done)")
     (auto simp: unat_inc_less word_less_nat_alt)

declare rblock_loop.simps [simp del]

definition fifo_rblock ::
  "fifo_t \<Rightarrow> u8 list \<Rightarrow> uint \<Rightarrow> fault + (uint \<times> fifo_t \<times> u8 list)" where
  "fifo_rblock f dest len =
     (let sz = siz f;
          f1 = f\<lparr>mtx := diag_os_lock (mtx f)\<rparr>;
          r0 = rp f1
      in if used f1 < len then
           Inr (0, f1\<lparr>mtx := diag_os_unlock (mtx f1)\<rparr>, dest)
         else
           case rblock_loop sz len (data f1) dest 0 0 r0 of
             Inl e \<Rightarrow> Inl e
           | Inr (done, r, dest1) \<Rightarrow>
               let f2 = f1\<lparr>rp := r, used := used f1 - len\<rparr>
               in Inr (done, f2\<lparr>mtx := diag_os_unlock (mtx f2)\<rparr>, dest1))"

section \<open>The output stream and the console\<close>

text \<open>
  The C library is outside of the program. A stream \<open>FILE *\<close> is modelled by what the
  program can observe and cause: \<open>writes\<close> lists, call by call, the bytes the stream
  has accepted, and \<open>room\<close> gives, for each future call, how many bytes the stream
  will accept at most (no entry: it accepts all of them). A call that is given fewer
  bytes of room than it wants to write is a short write.
\<close>

record file_t =
  writes :: "u8 list list"
  room :: "nat list"

definition room_for :: "nat list \<Rightarrow> nat \<Rightarrow> nat" where
  "room_for rm n = (case rm of [] \<Rightarrow> n | q # _ \<Rightarrow> min q n)"

definition accepted :: "file_t \<Rightarrow> nat \<Rightarrow> nat" where
  "accepted stream n = room_for (room stream) n"

definition put_bytes :: "file_t \<Rightarrow> u8 list \<Rightarrow> file_t" where
  "put_bytes stream bs =
     stream\<lparr>writes := writes stream @ [take (accepted stream (length bs)) bs],
            room := tl (room stream)\<rparr>"

text \<open>
  \<open>fwrite ptr size nmemb stream\<close> returns the number of complete items written, which
  is less than \<open>nmemb\<close> only on a failure. With a size or a count of zero it returns
  0 and leaves the stream as it is.
\<close>

definition fwrite :: "u8 list \<Rightarrow> nat \<Rightarrow> nat \<Rightarrow> file_t \<Rightarrow> fault + (nat \<times> file_t)" where
  "fwrite ptr size_l nmemb stream =
     (if length ptr < size_l * nmemb then Inl OutOfBounds
      else if size_l = 0 \<or> nmemb = 0 then Inr (0, stream)
      else Inr (accepted stream (size_l * nmemb) div size_l,
                put_bytes stream (take (size_l * nmemb) ptr)))"

definition bytes_of :: "string \<Rightarrow> u8 list" where
  "bytes_of str = map (\<lambda>c. of_char c) str"

text \<open>\<open>fprintf\<close> of a format without conversions; the program ignores its result.\<close>

definition fprintf :: "file_t \<Rightarrow> string \<Rightarrow> file_t" where
  "fprintf stream str = put_bytes stream (bytes_of str)"



section \<open>The memory buffer and its flush\<close>

text \<open>
  \<open>struct membuf_t\<close>, with the stream \<open>out_file\<close> points to. The run-time state the
  functions below work on is the memory buffer together with what the program has
  printed on its standard output.
\<close>

record membuf_t =
  out_file :: file_t
  fifo :: fifo_t

record state =
  membuf :: membuf_t
  stdout :: string

definition MEMBUF_CHUNKS :: uint where
  "MEMBUF_CHUNKS = 4 * 1024"

text \<open>
  \<open>membuf_flush\<close> returns \<open>void\<close> from three places. \<open>flush_exit\<close> names the
  \<open>return\<close> statement a run of the loop ends at; it is not a value the C caller
  receives.
\<close>

datatype flush_exit = Fifo_read_fatal | Fwrite_fatal | Flushed

definition set_fifo :: "state \<Rightarrow> fifo_t \<Rightarrow> state" where
  "set_fifo s f = s\<lparr>membuf := (membuf s)\<lparr>fifo := f\<rparr>\<rparr>"

definition set_out_file :: "state \<Rightarrow> file_t \<Rightarrow> state" where
  "set_out_file s stream = s\<lparr>membuf := (membuf s)\<lparr>out_file := stream\<rparr>\<rparr>"

definition printf :: "state \<Rightarrow> string \<Rightarrow> state" where
  "printf s str = s\<lparr>stdout := stdout s @ str\<rparr>"

text \<open>The two messages of \<open>membuf_flush\<close>; \<open>CHR 0x0A\<close> is the newline.\<close>

definition fifo_fatal_msg :: string where
  "fifo_fatal_msg = CHR 0x0A # ''FATAL : could not read fifo !'' @ [CHR 0x0A]"

definition fwrite_fatal_msg :: string where
  "fwrite_fatal_msg = CHR 0x0A # ''FATAL : fwrite problem !'' @ [CHR 0x0A]"

text \<open>
  The \<open>while (remsiz)\<close> loop of \<open>membuf_flush\<close>. \<open>tempbuf\<close> is the local array of
  \<open>MEMBUF_CHUNKS\<close> bytes.
\<close>

function membuf_flush_loop :: "u8 list \<Rightarrow> uint \<Rightarrow> state \<Rightarrow> fault + (flush_exit \<times> state)" where
  "membuf_flush_loop tempbuf remsiz s =
     (if remsiz \<noteq> 0 then
        let oneshot = (if MEMBUF_CHUNKS < remsiz then MEMBUF_CHUNKS else remsiz) in
        case fifo_rblock (fifo (membuf s)) tempbuf oneshot of
          Inl e \<Rightarrow> Inl e
        | Inr (n, f1, tempbuf1) \<Rightarrow>
            let s1 = set_fifo s f1 in
            if n \<noteq> oneshot then
              Inr (Fifo_read_fatal,
                   set_out_file s1 (fprintf (out_file (membuf s1)) fifo_fatal_msg))
            else
              case fwrite tempbuf1 1 (unat oneshot) (out_file (membuf s1)) of
                Inl e \<Rightarrow> Inl e
              | Inr (k, stream1) \<Rightarrow>
                  let s2 = set_out_file s1 stream1 in
                  if k \<noteq> unat oneshot then
                    Inr (Fwrite_fatal,
                         set_out_file s2 (fprintf (out_file (membuf s2)) fwrite_fatal_msg))
                  else
                    membuf_flush_loop tempbuf1 (remsiz - oneshot)
                      (printf s2 (''fc'' @ [CHR 0x0A]))
      else Inr (Flushed, s))"
  by pat_completeness auto

lemma unat_chunk_less:
  "(remsiz::uint) \<noteq> 0 \<Longrightarrow>
   unat (remsiz - (if MEMBUF_CHUNKS < remsiz then MEMBUF_CHUNKS else remsiz)) < unat remsiz"
  by (auto simp: MEMBUF_CHUNKS_def unat_sub word_less_nat_alt word_le_nat_alt unat_gt_0)

termination membuf_flush_loop
  by (relation "measure (\<lambda>(tempbuf, remsiz, s). unat remsiz)") (auto simp: unat_chunk_less)

declare membuf_flush_loop.simps [simp del]

text \<open>
  The body of \<open>membuf_flush\<close>: the amount held is read once, before the loop.
  \<open>membuf_flush_run\<close> keeps the mark of the \<open>return\<close> statement reached;
  \<open>membuf_flush\<close> is the function as its callers see it. It returns \<open>void\<close>: the
  caller gets the new state and nothing else, whichever \<open>return\<close> was taken.
\<close>

definition membuf_flush_run :: "u8 list \<Rightarrow> state \<Rightarrow> fault + (flush_exit \<times> state)" where
  "membuf_flush_run tempbuf s =
     (case fifo_used (fifo (membuf s)) of
        (remsiz, f1) \<Rightarrow> membuf_flush_loop tempbuf remsiz (set_fifo s f1))"

definition membuf_flush :: "u8 list \<Rightarrow> state \<Rightarrow> fault + state" where
  "membuf_flush tempbuf s =
     (case membuf_flush_run tempbuf s of
        Inl e \<Rightarrow> Inl e
      | Inr (ex, s1) \<Rightarrow> Inr s1)"

text \<open>
  Modelled from the spec: \<open>zf_log_message\<close> is declared in \<open>zf_log.h\<close>, which is
  not among the sources. The formatter hands over a sequence of bytes with a known
  length; the callback reaches it through the buffer \<open>buf\<close> and the pointer \<open>p\<close> to
  the end of the formatted text, the only fields it uses. \<open>p\<close> is kept as an offset
  into \<open>buf\<close>.
\<close>

record zf_log_message =
  buf :: "u8 list"
  p :: nat


section \<open>The bytes held\<close>

text \<open>
  The specification speaks of the bytes a FIFO holds. \<open>fifo_wf\<close> collects the bounds
  of its data model: the storage has \<open>siz\<close> cells, \<open>used\<close> is at most \<open>siz\<close>, and
  both positions are below \<open>siz\<close>. \<open>held\<close> reads the storage as a ring: \<open>used\<close>
  cells from \<open>rp\<close> on, back to cell 0 after the last cell. \<open>fifo_inv\<close> adds that
  \<open>wp\<close> is the cell after the bytes held.
\<close>

definition fifo_wf :: "fifo_t \<Rightarrow> bool" where
  "fifo_wf f \<longleftrightarrow>
     length (data f) = unat (siz f) \<and> used f \<le> siz f \<and> rp f < siz f \<and> wp f < siz f"

definition held :: "fifo_t \<Rightarrow> u8 list" where
  "held f = take (unat (used f)) (rotate (unat (rp f)) (data f))"

definition fifo_inv :: "fifo_t \<Rightarrow> bool" where
  "fifo_inv f \<longleftrightarrow>
     fifo_wf f \<and> unat (wp f) = (unat (rp f) + unat (used f)) mod unat (siz f)"

text \<open>
  The two copy loops on natural numbers: \<open>ring_put n w bs d\<close> stores \<open>bs\<close> into \<open>d\<close>
  from cell \<open>w\<close> on, and \<open>ring_get n r k d\<close> fetches \<open>k\<close> cells of \<open>d\<close> from cell \<open>r\<close>
  on, both stepping to cell 0 after cell \<open>n - 1\<close>.
\<close>

fun ring_put :: "nat \<Rightarrow> nat \<Rightarrow> 'a list \<Rightarrow> 'a list \<Rightarrow> 'a list" where
  "ring_put n w [] d = d"
| "ring_put n w (b # bs) d = ring_put n (Suc w mod n) bs (d[w := b])"

fun ring_get :: "nat \<Rightarrow> nat \<Rightarrow> nat \<Rightarrow> 'a list \<Rightarrow> 'a list" where
  "ring_get n r 0 d = []"
| "ring_get n r (Suc k) d = d ! r # ring_get n (Suc r mod n) k d"

section \<open>Sequences of operations\<close>

text \<open>
  A caller's operation on a FIFO: a write of \<open>len\<close> bytes from an array, a read of
  \<open>len\<close> bytes into an array, or a query of the amount held. An operation fits when
  its array has at least \<open>len\<close> bytes. \<open>run_ops\<close> performs a list of operations in
  turn and adds up what the writes and what the reads returned.
\<close>

datatype fifo_op = Try_write "u8 list" uint | Try_read "u8 list" uint | Amount_held

fun op_fits :: "fifo_op \<Rightarrow> bool" where
  "op_fits (Try_write src len) = (unat len \<le> length src)"
| "op_fits (Try_read dest len) = (unat len \<le> length dest)"
| "op_fits Amount_held = True"

fun run_ops :: "nat \<times> nat \<times> fifo_t \<Rightarrow> fifo_op list \<Rightarrow> fault + (nat \<times> nat \<times> fifo_t)" where
  "run_ops (w, r, f) [] = Inr (w, r, f)"
| "run_ops (w, r, f) (Try_write src len # ops) =
     (case fifo_wblock f src len of
        Inl e \<Rightarrow> Inl e
      | Inr (n, f1) \<Rightarrow> run_ops (w + unat n, r, f1) ops)"
| "run_ops (w, r, f) (Try_read dest len # ops) =
     (case fifo_rblock f dest len of
        Inl e \<Rightarrow> Inl e
      | Inr (n, f1, dest1) \<Rightarrow> run_ops (w, r + unat n, f1) ops)"
| "run_ops (w, r, f) (Amount_held # ops) =
     (case fifo_used f of (n, f1) \<Rightarrow> run_ops (w, r, f1) ops)"

text \<open>
  \<open>write_all\<close> writes byte strings in turn, each with its own length, and lists what
  the calls returned. \<open>read_all\<close> serves read requests in turn, each a destination
  array and a length, and lists the bytes each call reports as read.
\<close>

fun write_all :: "fifo_t \<Rightarrow> u8 list list \<Rightarrow> fault + (nat list \<times> fifo_t)" where
  "write_all f [] = Inr ([], f)"
| "write_all f (s # ss) =
     (case fifo_wblock f s (of_nat (length s)) of
        Inl e \<Rightarrow> Inl e
      | Inr (n, f1) \<Rightarrow>
          (case write_all f1 ss of
             Inl e \<Rightarrow> Inl e
           | Inr (ns, f2) \<Rightarrow> Inr (unat n # ns, f2)))"

fun read_all :: "fifo_t \<Rightarrow> (u8 list \<times> uint) list \<Rightarrow> fault + (u8 list list \<times> fifo_t)" where
  "read_all f [] = Inr ([], f)"
| "read_all f ((dest, len) # reqs) =
     (case fifo_rblock f dest len of
        Inl e \<Rightarrow> Inl e
      | Inr (n, f1, dest1) \<Rightarrow>
          (case read_all f1 reqs of
             Inl e \<Rightarrow> Inl e
           | Inr (ps, f2) \<Rightarrow> Inr (take (unat n) dest1 # ps, f2)))"

definition req_fits :: "u8 list \<times> uint \<Rightarrow> bool" where
  "req_fits q = (unat (snd q) \<le> length (fst q))"

definition req_len :: "u8 list \<times> uint \<Rightarrow> nat" where
  "req_len q = unat (snd q)"

section \<open>The drain on lists\<close>

text \<open>
  \<open>chunks c xs\<close> cuts \<open>xs\<close> into pieces of \<open>c\<close> elements, the last one shorter when
  \<open>c\<close> does not divide the length: each piece has \<open>min (length xs) c\<close> elements of
  what is left.

  \<open>drain_abs c rm h\<close> describes a run of the loop of \<open>membuf_flush\<close> on the bytes
  held \<open>h\<close> and the room \<open>rm\<close> of the stream, with chunks of \<open>c\<close> bytes: the
  \<open>return\<close> reached, the number of bytes taken out of the FIFO, the pieces the calls
  of \<open>fwrite\<close> put on the stream, and the room left after them.
\<close>

fun chunks :: "nat \<Rightarrow> 'a list \<Rightarrow> 'a list list" where
  "chunks c xs =
     (if c = 0 \<or> xs = [] then []
      else take (min (length xs) c) xs # chunks c (drop (min (length xs) c) xs))"

declare chunks.simps [simp del]

fun drain_abs :: "nat \<Rightarrow> nat list \<Rightarrow> 'a list \<Rightarrow> flush_exit \<times> nat \<times> 'a list list \<times> nat list" where
  "drain_abs c rm h =
     (if c = 0 \<or> h = [] then (Flushed, 0, [], rm)
      else
        let k = min (length h) c;
            a = room_for rm k
        in if a \<noteq> k then (Fwrite_fatal, k, [take a h], tl rm)
           else case drain_abs c (tl rm) (drop k h) of
                  (ex, n, ws, rm') \<Rightarrow> (ex, k + n, take k h # ws, rm'))"

declare drain_abs.simps [simp del]

section \<open>Lists read as rings\<close>

text \<open>
  Storing a list into a ring and fetching from a ring, in terms of \<open>rotate\<close>: seen
  from cell \<open>r\<close>, storing \<open>bs\<close> at distance \<open>m\<close> replaces the cells \<open>m\<close>,
  \<open>m + 1\<close>, ... by \<open>bs\<close>, and fetching \<open>k\<close> cells from \<open>r\<close> takes the first \<open>k\<close>
  cells.
\<close>

lemma length_ring_put: "length (ring_put n w bs d) = length d"
  by (induction bs arbitrary: w d) auto

lemma mod_inj_le:
  assumes "a \<le> b" "b < n" "(r + b) mod n = (r + a) mod (n::nat)"
  shows "b = a"
proof -
  have "n dvd (r + b) - (r + a)"
    using assms mod_eq_dvd_iff_nat [of "r + a" "r + b" n] by simp
  then have "n dvd b - a" by simp
  moreover have "b - a < n" using assms by simp
  ultimately have "b - a = 0"
    using nat_dvd_not_less [of "b - a" n] by (cases "b - a = 0") auto
  then show ?thesis using assms by simp
qed

lemma mod_inj_less: "i < n \<Longrightarrow> m < n \<Longrightarrow> ((r + m) mod n = (r + i) mod (n::nat)) = (m = i)"
  using mod_inj_le [of i m n r] mod_inj_le [of m i n r]
  by (cases "i \<le> m") auto

lemma rotate_update:
  assumes "m < length d"
  shows "rotate r (d[(r + m) mod length d := b]) = (rotate r d)[m := b]"
proof (rule nth_equalityI)
  show "length (rotate r (d[(r + m) mod length d := b])) = length ((rotate r d)[m := b])"
    by simp
next
  fix i assume "i < length (rotate r (d[(r + m) mod length d := b]))"
  then have i: "i < length d" by simp
  show "rotate r (d[(r + m) mod length d := b]) ! i = (rotate r d)[m := b] ! i"
  proof -
    have "0 < length d" using i by (cases d) auto
    then have "(r + i) mod length d < length d" by (rule mod_less_divisor)
    then show ?thesis
      using i assms by (simp add: nth_rotate nth_list_update mod_inj_less)
  qed
qed

lemma rotate_ring_put:
  "n = length d \<Longrightarrow> m + length bs \<le> n \<Longrightarrow>
   rotate r (ring_put n ((r + m) mod n) bs d) =
     take m (rotate r d) @ bs @ drop (m + length bs) (rotate r d)"
proof (induction bs arbitrary: m d)
  case Nil
  then show ?case by simp
next
  case (Cons b bs)
  have m: "m < length d" using Cons.prems by simp
  have nx: "Suc ((r + m) mod n) mod n = (r + Suc m) mod n"
    by (simp add: mod_Suc_eq)
  have "rotate r (ring_put n ((r + m) mod n) (b # bs) d) =
        rotate r (ring_put n ((r + Suc m) mod n) bs (d[(r + m) mod n := b]))"
    by (simp add: nx)
  also have "\<dots> = take (Suc m) (rotate r (d[(r + m) mod n := b])) @ bs @
                 drop (Suc m + length bs) (rotate r (d[(r + m) mod n := b]))"
    using Cons.prems by (intro Cons.IH) auto
  also have "rotate r (d[(r + m) mod n := b]) = (rotate r d)[m := b]"
    using m Cons.prems(1) by (simp add: rotate_update)
  also have "take (Suc m) ((rotate r d)[m := b]) = take m (rotate r d) @ [b]"
    using m by (simp add: take_Suc_conv_app_nth)
  also have "drop (Suc m + length bs) ((rotate r d)[m := b]) = drop (Suc m + length bs) (rotate r d)"
    by simp
  finally show ?case by simp
qed

lemma length_ring_get: "length (ring_get n r k d) = k"
  by (induction k arbitrary: r) auto

lemma nth_ring_get: "i < k \<Longrightarrow> r < n \<Longrightarrow> ring_get n r k d ! i = d ! ((r + i) mod n)"
proof (induction k arbitrary: r i)
  case 0
  then show ?case by simp
next
  case (Suc k)
  show ?case
  proof (cases i)
    case 0
    then show ?thesis using Suc.prems by simp
  next
    case (Suc j)
    have "Suc r mod n < n" using Suc.prems by simp
    then have "ring_get n (Suc r mod n) k d ! j = d ! ((Suc r mod n + j) mod n)"
      using Suc.prems Suc by (intro Suc.IH) auto
    also have "(Suc r mod n + j) mod n = (r + Suc j) mod n"
      by (simp add: mod_add_left_eq)
    finally show ?thesis using Suc by simp
  qed
qed

lemma ring_get_rotate:
  assumes "n = length d" "r < n" "k \<le> n"
  shows "ring_get n r k d = take k (rotate r d)"
proof (rule nth_equalityI)
  show "length (ring_get n r k d) = length (take k (rotate r d))"
    using assms by (simp add: length_ring_get)
next
  fix i assume "i < length (ring_get n r k d)"
  then have "i < k" by (simp add: length_ring_get)
  then show "ring_get n r k d ! i = take k (rotate r d) ! i"
    using assms by (simp add: nth_ring_get nth_rotate)
qed

section \<open>The copy loops\<close>

text \<open>
  The loops of \<open>fifo_wblock\<close> and \<open>fifo_rblock\<close> run to \<open>done = len\<close> without a
  fault when the indexer starts below \<open>siz\<close>, the storage has \<open>siz\<close> cells and the
  caller's array is long enough; they compute \<open>ring_put\<close> and \<open>ring_get\<close>.
\<close>

lemma ring_next:
  fixes w :: uint
  assumes "w < sz"
  shows "(if w + 1 = sz then 0 else w + 1) < sz"
    and "unat (if w + 1 = sz then 0 else w + 1) = Suc (unat w) mod unat sz"
proof -
  have u: "unat (w + 1) = Suc (unat w)" using assms by (rule unat_inc_less)
  have lt: "unat w < unat sz" using assms by (simp add: word_less_nat_alt)
  show "(if w + 1 = sz then 0 else w + 1) < sz"
  proof (cases "w + 1 = sz")
    case True
    have "0 < unat sz" using lt by simp
    then show ?thesis using True by (simp add: word_less_nat_alt)
  next
    case False
    then have "unat (w + 1) \<noteq> unat sz" by (simp add: word_unat_eq_iff)
    then show ?thesis using False u lt by (simp add: word_less_nat_alt)
  qed
  show "unat (if w + 1 = sz then 0 else w + 1) = Suc (unat w) mod unat sz"
  proof (cases "w + 1 = sz")
    case True
    then have "unat sz = Suc (unat w)" using u by simp
    then show ?thesis using True by simp
  next
    case False
    then have "unat (w + 1) \<noteq> unat sz" by (simp add: word_unat_eq_iff)
    then show ?thesis using False u lt by simp
  qed
qed

lemma wblock_loop_eq:
  assumes "unat dn + k = unat len" "unat sz = length dat" "w < sz" "si + k \<le> length src"
  shows "wblock_loop sz len src si dn w dat =
     Inr (len, of_nat ((unat w + k) mod unat sz),
          ring_put (unat sz) (unat w) (take k (drop si src)) dat)"
  using assms
proof (induction k arbitrary: dn w si dat)
  case 0
  have "dn = len" using 0 by (simp add: word_unat_eq_iff)
  moreover have "unat w < unat sz" using 0 by (simp add: word_less_nat_alt)
  ultimately show ?case
    by (subst wblock_loop.simps) simp
next
  case (Suc k)
  have lt: "dn < len" using Suc.prems(1) by (simp add: word_less_nat_alt)
  have ud: "unat (dn + 1) = Suc (unat dn)" using lt by (rule unat_inc_less)
  have wl: "unat w < length dat" using Suc.prems by (simp add: word_less_nat_alt)
  have sl: "si < length src" using Suc.prems by simp
  let ?w2 = "if w + 1 = sz then 0 else w + 1"
  let ?d1 = "dat[unat w := src ! si]"
  have w2: "?w2 < sz" "unat ?w2 = Suc (unat w) mod unat sz"
    using ring_next [OF Suc.prems(3)] by simp_all
  have step: "wblock_loop sz len src si dn w dat =
              wblock_loop sz len src (Suc si) (dn + 1) ?w2 ?d1"
    using lt wl sl by (subst wblock_loop.simps) (simp add: Let_def)
  have ih: "wblock_loop sz len src (Suc si) (dn + 1) ?w2 ?d1 =
     Inr (len, of_nat ((unat ?w2 + k) mod unat sz),
          ring_put (unat sz) (unat ?w2) (take k (drop (Suc si) src)) ?d1)"
  proof (rule Suc.IH)
    show "unat (dn + 1) + k = unat len" using Suc.prems(1) ud by simp
    show "unat sz = length ?d1" using Suc.prems by simp
    show "?w2 < sz" by (rule w2)
    show "Suc si + k \<le> length src" using Suc.prems by simp
  qed
  have m: "(unat ?w2 + k) mod unat sz = (unat w + Suc k) mod unat sz"
    unfolding w2(2) by (simp add: mod_add_left_eq)
  have t: "take (Suc k) (drop si src) = src ! si # take k (drop (Suc si) src)"
    using sl by (simp add: Cons_nth_drop_Suc [symmetric])
  show ?case
    unfolding step ih m t by (simp only: ring_put.simps w2(2))
qed

lemma rblock_loop_eq:
  assumes "unat dn + k = unat len" "unat sz = length dat" "r < sz" "di + k \<le> length dest"
  shows "rblock_loop sz len dat dest di dn r =
     Inr (len, of_nat ((unat r + k) mod unat sz),
          take di dest @ ring_get (unat sz) (unat r) k dat @ drop (di + k) dest)"
  using assms
proof (induction k arbitrary: dn r di dest)
  case 0
  have "dn = len" using 0 by (simp add: word_unat_eq_iff)
  moreover have "unat r < unat sz" using 0 by (simp add: word_less_nat_alt)
  ultimately show ?case
    by (subst rblock_loop.simps) simp
next
  case (Suc k)
  have lt: "dn < len" using Suc.prems(1) by (simp add: word_less_nat_alt)
  have ud: "unat (dn + 1) = Suc (unat dn)" using lt by (rule unat_inc_less)
  have rl: "unat r < length dat" using Suc.prems by (simp add: word_less_nat_alt)
  have dl: "di < length dest" using Suc.prems by simp
  let ?r2 = "if r + 1 = sz then 0 else r + 1"
  let ?d1 = "dest[di := dat ! unat r]"
  have r2: "?r2 < sz" "unat ?r2 = Suc (unat r) mod unat sz"
    using ring_next [OF Suc.prems(3)] by simp_all
  have step: "rblock_loop sz len dat dest di dn r =
              rblock_loop sz len dat ?d1 (Suc di) (dn + 1) ?r2"
    using lt rl dl by (subst rblock_loop.simps) (simp add: Let_def)
  have ih: "rblock_loop sz len dat ?d1 (Suc di) (dn + 1) ?r2 =
     Inr (len, of_nat ((unat ?r2 + k) mod unat sz),
          take (Suc di) ?d1 @ ring_get (unat sz) (unat ?r2) k dat @ drop (Suc di + k) ?d1)"
  proof (rule Suc.IH)
    show "unat (dn + 1) + k = unat len" using Suc.prems(1) ud by simp
    show "unat sz = length dat" using Suc.prems by simp
    show "?r2 < sz" by (rule r2)
    show "Suc di + k \<le> length ?d1" using Suc.prems by simp
  qed
  have m: "(unat ?r2 + k) mod unat sz = (unat r + Suc k) mod unat sz"
    unfolding r2(2) by (simp add: mod_add_left_eq)
  have t: "take (Suc di) ?d1 = take di dest @ [dat ! unat r]"
    using dl by (simp add: take_Suc_conv_app_nth)
  have d: "drop (Suc di + k) ?d1 = drop (di + Suc k) dest"
    by simp
  show ?case
    unfolding step ih m t d by (simp add: r2(2))
qed

section \<open>One block\<close>

text \<open>
  What \<open>fifo_wblock\<close> and \<open>fifo_rblock\<close> return on each of their two paths, and what
  an accepted block does to the bounds, to the invariant and to the bytes held.
\<close>

lemma fifo_wblock_reject:
  "siz f - used f < len \<Longrightarrow> fifo_wblock f src len = Inr (0, f)"
  by (simp add: fifo_wblock_def diag_os_lock_def diag_os_unlock_def)

lemma fifo_rblock_reject:
  "used f < len \<Longrightarrow> fifo_rblock f dest len = Inr (0, f, dest)"
  by (simp add: fifo_rblock_def diag_os_lock_def diag_os_unlock_def)

lemma unat_ring_idx:
  fixes sz :: uint
  shows "0 < unat sz \<Longrightarrow> unat (of_nat (x mod unat sz) :: uint) = x mod unat sz"
proof -
  assume "0 < unat sz"
  then have "x mod unat sz \<le> unat sz" by simp
  then show ?thesis by (rule le_unat_uoi)
qed

lemma fifo_wf_pos: "fifo_wf f \<Longrightarrow> 0 < unat (siz f)"
  by (auto simp: fifo_wf_def word_less_nat_alt)

lemma fifo_wf_nat:
  assumes "fifo_wf f"
  shows "unat (used f) \<le> unat (siz f)" "unat (rp f) < unat (siz f)"
    "unat (wp f) < unat (siz f)" "length (data f) = unat (siz f)"
  using assms by (auto simp: fifo_wf_def word_less_nat_alt word_le_nat_alt)

lemma room_nat:
  assumes "fifo_wf f"
  shows "(siz f - used f < len) = (unat (siz f) - unat (used f) < unat len)"
proof -
  have "used f \<le> siz f" using assms by (simp add: fifo_wf_def)
  then have "unat (siz f - used f) = unat (siz f) - unat (used f)" by (rule unat_sub)
  then show ?thesis by (simp add: word_less_nat_alt)
qed

lemma fifo_wblock_accept:
  assumes wf: "fifo_wf f" and src: "unat len \<le> length src"
    and fit: "\<not> siz f - used f < len"
  shows "fifo_wblock f src len =
     Inr (len, f\<lparr>wp := of_nat ((unat (wp f) + unat len) mod unat (siz f)),
                 used := used f + len,
                 data := ring_put (unat (siz f)) (unat (wp f)) (take (unat len) src) (data f)\<rparr>)"
proof -
  have "wblock_loop (siz f) len src 0 0 (wp f) (data f) =
     Inr (len, of_nat ((unat (wp f) + unat len) mod unat (siz f)),
          ring_put (unat (siz f)) (unat (wp f)) (take (unat len) (drop 0 src)) (data f))"
  proof (rule wblock_loop_eq)
    show "unat (0::uint) + unat len = unat len" by simp
    show "unat (siz f) = length (data f)" using wf by (simp add: fifo_wf_def)
    show "wp f < siz f" using wf by (simp add: fifo_wf_def)
    show "0 + unat len \<le> length src" using src by simp
  qed
  then show ?thesis
    using fit by (simp add: fifo_wblock_def diag_os_lock_def diag_os_unlock_def)
qed

lemma fifo_rblock_accept:
  assumes wf: "fifo_wf f" and dest: "unat len \<le> length dest"
    and fit: "\<not> used f < len"
  shows "fifo_rblock f dest len =
     Inr (len, f\<lparr>rp := of_nat ((unat (rp f) + unat len) mod unat (siz f)),
                 used := used f - len\<rparr>,
          take (unat len) (held f) @ drop (unat len) dest)"
proof -
  have le: "unat len \<le> unat (used f)" using fit by (simp add: word_less_nat_alt)
  have n: "unat len \<le> unat (siz f)" using le fifo_wf_nat(1) [OF wf] by simp
  have "rblock_loop (siz f) len (data f) dest 0 0 (rp f) =
     Inr (len, of_nat ((unat (rp f) + unat len) mod unat (siz f)),
          take 0 dest @ ring_get (unat (siz f)) (unat (rp f)) (unat len) (data f) @
          drop (0 + unat len) dest)"
  proof (rule rblock_loop_eq)
    show "unat (0::uint) + unat len = unat len" by simp
    show "unat (siz f) = length (data f)" using wf by (simp add: fifo_wf_def)
    show "rp f < siz f" using wf by (simp add: fifo_wf_def)
    show "0 + unat len \<le> length dest" using dest by simp
  qed
  moreover have "ring_get (unat (siz f)) (unat (rp f)) (unat len) (data f) =
      take (unat len) (rotate (unat (rp f)) (data f))"
    using fifo_wf_nat [OF wf] n by (intro ring_get_rotate) auto
  moreover have "take (unat len) (held f) = take (unat len) (rotate (unat (rp f)) (data f))"
    using le by (simp add: held_def min_def)
  ultimately show ?thesis
    using fit by (simp add: fifo_rblock_def diag_os_lock_def diag_os_unlock_def)
qed

lemma unat_used_add:
  assumes "fifo_wf f" "\<not> siz f - used f < len"
  shows "unat (used f + len) = unat (used f) + unat len"
    and "unat (used f) + unat len \<le> unat (siz f)"
proof -
  have le: "unat (used f) \<le> unat (siz f)" using assms(1) by (rule fifo_wf_nat)
  have "\<not> unat (siz f) - unat (used f) < unat len"
    using assms by (simp add: room_nat)
  then show b: "unat (used f) + unat len \<le> unat (siz f)" using le by simp
  have "unat (siz f) < 2 ^ LENGTH(32)" by (rule unsigned_less)
  then have "unat (used f) + unat len < 2 ^ LENGTH(32)" using b by simp
  then show "unat (used f + len) = unat (used f) + unat len"
    by (simp only: unat_add_lem)
qed

lemma unat_used_sub:
  assumes "\<not> used f < len"
  shows "unat (used f - len) = unat (used f) - unat len"
proof -
  have "len \<le> used f" using assms by simp
  then show ?thesis by (rule unat_sub)
qed

lemma fifo_wblock_post:
  assumes wf: "fifo_wf f" and src: "unat len \<le> length src"
    and fit: "\<not> siz f - used f < len"
    and res: "fifo_wblock f src len = Inr (n, f')"
  shows "n = len" "fifo_wf f'" "siz f' = siz f" "rp f' = rp f" "mtx f' = mtx f"
    "unat (wp f') = (unat (wp f) + unat len) mod unat (siz f)"
    "unat (used f') = unat (used f) + unat len"
    "rotate (unat (wp f)) (data f') =
       take (unat len) src @ drop (unat len) (rotate (unat (wp f)) (data f))"
    "length (data f') = length (data f)"
proof -
  let ?n = "unat (siz f)"
  let ?d = "ring_put ?n (unat (wp f)) (take (unat len) src) (data f)"
  have eq: "f' = f\<lparr>wp := of_nat ((unat (wp f) + unat len) mod ?n),
                     used := used f + len, data := ?d\<rparr>"
    and n: "n = len"
    using res fifo_wblock_accept [OF wf src fit] by auto
  show "n = len" by (rule n)
  note nat = fifo_wf_nat [OF wf]
  have pos: "0 < ?n" using wf by (rule fifo_wf_pos)
  note ua = unat_used_add [OF wf fit]
  show wp': "unat (wp f') = (unat (wp f) + unat len) mod ?n"
    unfolding eq using pos by (simp add: unat_ring_idx)
  show used': "unat (used f') = unat (used f) + unat len"
    unfolding eq using ua by simp
  show "siz f' = siz f" "rp f' = rp f" "mtx f' = mtx f" unfolding eq by simp_all
  show len': "length (data f') = length (data f)"
    unfolding eq by (simp add: length_ring_put)
  have "wp f' < siz f'"
    using wp' pos by (simp add: word_less_nat_alt eq)
  moreover have "used f' \<le> siz f'"
    using used' ua by (simp add: word_le_nat_alt eq)
  ultimately show "fifo_wf f'"
    using wf len' by (simp add: fifo_wf_def eq)
  have "rotate (unat (wp f)) (ring_put ?n ((unat (wp f) + 0) mod ?n) (take (unat len) src) (data f)) =
        take 0 (rotate (unat (wp f)) (data f)) @ take (unat len) src @
        drop (0 + length (take (unat len) src)) (rotate (unat (wp f)) (data f))"
    using nat ua src by (intro rotate_ring_put) auto
  then show "rotate (unat (wp f)) (data f') =
       take (unat len) src @ drop (unat len) (rotate (unat (wp f)) (data f))"
    unfolding eq using nat src by (simp add: min_def)
qed

lemma fifo_wblock_held:
  assumes inv: "fifo_inv f" and src: "unat len \<le> length src"
    and fit: "\<not> siz f - used f < len"
    and res: "fifo_wblock f src len = Inr (n, f')"
  shows "fifo_inv f'" "held f' = held f @ take (unat len) src"
proof -
  have wf: "fifo_wf f" using inv by (simp add: fifo_inv_def)
  let ?n = "unat (siz f)"
  let ?d = "ring_put ?n (unat (wp f)) (take (unat len) src) (data f)"
  note post = fifo_wblock_post [OF wf src fit res]
  note nat = fifo_wf_nat [OF wf]
  note ua = unat_used_add [OF wf fit]
  have wpi: "unat (wp f) = (unat (rp f) + unat (used f)) mod ?n"
    using inv by (simp add: fifo_inv_def)
  have "unat (wp f') = (unat (rp f') + unat (used f')) mod unat (siz f')"
    unfolding post wpi by (simp add: mod_add_left_eq add.assoc)
  then show "fifo_inv f'" using post(2) by (simp add: fifo_inv_def)
  have eq: "data f' = ?d"
    using res fifo_wblock_accept [OF wf src fit] by auto
  have "rotate (unat (rp f)) (ring_put ?n ((unat (rp f) + unat (used f)) mod ?n)
            (take (unat len) src) (data f)) =
        take (unat (used f)) (rotate (unat (rp f)) (data f)) @ take (unat len) src @
        drop (unat (used f) + length (take (unat len) src)) (rotate (unat (rp f)) (data f))"
    using nat ua src by (intro rotate_ring_put) auto
  then have "rotate (unat (rp f)) (data f') =
        take (unat (used f)) (rotate (unat (rp f)) (data f)) @ take (unat len) src @
        drop (unat (used f) + length (take (unat len) src)) (rotate (unat (rp f)) (data f))"
    unfolding eq wpi .
  then show "held f' = held f @ take (unat len) src"
    unfolding held_def post using nat src by (simp add: min_def)
qed

lemma fifo_rblock_post:
  assumes wf: "fifo_wf f" and dest: "unat len \<le> length dest"
    and fit: "\<not> used f < len"
    and res: "fifo_rblock f dest len = Inr (n, f', dest')"
  shows "n = len" "fifo_wf f'" "siz f' = siz f" "wp f' = wp f" "mtx f' = mtx f"
    "data f' = data f"
    "unat (rp f') = (unat (rp f) + unat len) mod unat (siz f)"
    "unat (used f') = unat (used f) - unat len"
    "dest' = take (unat len) (held f) @ drop (unat len) dest"
    "held f' = drop (unat len) (held f)"
proof -
  let ?n = "unat (siz f)"
  have eq: "f' = f\<lparr>rp := of_nat ((unat (rp f) + unat len) mod ?n), used := used f - len\<rparr>"
    and n: "n = len"
    and d: "dest' = take (unat len) (held f) @ drop (unat len) dest"
    using res fifo_rblock_accept [OF wf dest fit] by auto
  show "n = len" by (rule n)
  show "dest' = take (unat len) (held f) @ drop (unat len) dest" by (rule d)
  note nat = fifo_wf_nat [OF wf]
  have pos: "0 < ?n" using wf by (rule fifo_wf_pos)
  note us = unat_used_sub [OF fit]
  have le: "unat len \<le> unat (used f)" using fit by (simp add: word_less_nat_alt)
  show rp': "unat (rp f') = (unat (rp f) + unat len) mod ?n"
    unfolding eq using pos by (simp add: unat_ring_idx)
  show used': "unat (used f') = unat (used f) - unat len"
    unfolding eq using us by simp
  show "siz f' = siz f" "wp f' = wp f" "mtx f' = mtx f" "data f' = data f"
    unfolding eq by simp_all
  have "rp f' < siz f'"
    using rp' pos by (simp add: word_less_nat_alt eq)
  moreover have "used f' \<le> siz f'"
    using used' nat by (simp add: word_le_nat_alt eq)
  ultimately show "fifo_wf f'"
    using wf by (simp add: fifo_wf_def eq)
  let ?X = "rotate (unat (rp f)) (data f)"
  have lx: "length ?X = ?n" using nat by simp
  have "rotate ((unat (rp f) + unat len) mod ?n) (data f) = rotate (unat len) ?X"
    using nat rotate_conv_mod [of "unat (rp f) + unat len" "data f"]
    by (simp add: rotate_rotate add.commute)
  also have "\<dots> = drop (unat len) ?X @ take (unat len) ?X"
    using le nat lx by (cases "unat len = ?n") (simp_all add: rotate_drop_take)
  finally have "held f' = take (unat (used f) - unat len) (drop (unat len) ?X @ take (unat len) ?X)"
    unfolding held_def rp' used' \<open>data f' = data f\<close> by simp
  also have "\<dots> = take (unat (used f) - unat len) (drop (unat len) ?X)"
    using nat lx by simp
  also have "\<dots> = drop (unat len) (held f)"
    by (simp add: held_def drop_take)
  finally show "held f' = drop (unat len) (held f)" .
qed

lemma fifo_rblock_inv:
  assumes inv: "fifo_inv f" and dest: "unat len \<le> length dest"
    and fit: "\<not> used f < len"
    and res: "fifo_rblock f dest len = Inr (n, f', dest')"
  shows "fifo_inv f'"
proof -
  have wf: "fifo_wf f" using inv by (simp add: fifo_inv_def)
  let ?n = "unat (siz f)"
  note post = fifo_rblock_post [OF wf dest fit res]
  have le: "unat len \<le> unat (used f)" using fit by (simp add: word_less_nat_alt)
  have wpi: "unat (wp f) = (unat (rp f) + unat (used f)) mod ?n"
    using inv by (simp add: fifo_inv_def)
  have "(unat (rp f') + unat (used f')) mod ?n =
        (unat (rp f) + unat len + (unat (used f) - unat len)) mod ?n"
    unfolding post by (simp add: mod_add_left_eq)
  also have "\<dots> = (unat (rp f) + unat (used f)) mod ?n"
    using le by simp
  finally show ?thesis
    using post(2) wpi by (simp add: fifo_inv_def post)
qed

lemma held_cells:
  assumes "fifo_wf f" "k \<le> unat (used f)"
  shows "take k (held f) = map (\<lambda>i. data f ! ((unat (rp f) + i) mod unat (siz f))) [0..<k]"
proof (rule nth_equalityI)
  note nat = fifo_wf_nat [OF assms(1)]
  show "length (take k (held f)) = length (map (\<lambda>i. data f ! ((unat (rp f) + i) mod unat (siz f))) [0..<k])"
    using assms(2) nat by (simp add: held_def)
  fix i assume "i < length (take k (held f))"
  then have i: "i < k" by simp
  then have "i < length (data f)" using assms(2) nat by simp
  then show "take k (held f) ! i = map (\<lambda>i. data f ! ((unat (rp f) + i) mod unat (siz f))) [0..<k] ! i"
    using i assms(2) nat by (simp add: held_def nth_rotate)
qed

section \<open>The invariant along a sequence\<close>

text \<open>
  A new FIFO satisfies the invariant and holds nothing; every operation keeps the
  invariant, appends to the bytes held what it wrote and takes from their front what
  it read.
\<close>

lemma init_fifo_inv:
  assumes "sz \<noteq> 0" "length rawbuf = unat sz"
  shows "fifo_inv (init_fifo f0 sz rawbuf)" "used (init_fifo f0 sz rawbuf) = 0"
    "siz (init_fifo f0 sz rawbuf) = sz" "held (init_fifo f0 sz rawbuf) = []"
  using assms
  by (simp_all add: init_fifo_def fifo_inv_def fifo_wf_def held_def word_gt_0)

lemma length_held: "fifo_wf f \<Longrightarrow> length (held f) = unat (used f)"
  using fifo_wf_nat [of f] by (simp add: held_def)

lemma fifo_inv_wf: "fifo_inv f \<Longrightarrow> fifo_wf f"
  by (simp add: fifo_inv_def)

lemma fifo_wblock_step:
  assumes inv: "fifo_inv f" and src: "unat len \<le> length src"
  shows "\<exists>n f1. fifo_wblock f src len = Inr (n, f1) \<and> fifo_inv f1 \<and> siz f1 = siz f \<and>
           unat (used f1) = unat (used f) + unat n \<and>
           held f1 = held f @ take (unat n) src \<and> (n = 0 \<or> n = len)"
proof (cases "siz f - used f < len")
  case True
  then show ?thesis using inv by (simp add: fifo_wblock_reject)
next
  case False
  have wf: "fifo_wf f" using inv by (rule fifo_inv_wf)
  obtain f1 where res: "fifo_wblock f src len = Inr (len, f1)"
    using fifo_wblock_accept [OF wf src False] by simp
  show ?thesis
    using res fifo_wblock_post [OF wf src False res] fifo_wblock_held [OF inv src False res]
    by simp
qed

lemma fifo_rblock_step:
  assumes inv: "fifo_inv f" and dest: "unat len \<le> length dest"
  shows "\<exists>n f1 dest1. fifo_rblock f dest len = Inr (n, f1, dest1) \<and> fifo_inv f1 \<and>
           siz f1 = siz f \<and> unat (used f1) + unat n = unat (used f) \<and>
           held f = take (unat n) dest1 @ held f1 \<and> (n = 0 \<or> n = len) \<and>
           (unat len \<le> unat (used f) \<longrightarrow> n = len)"
proof (cases "used f < len")
  case True
  then show ?thesis using inv by (simp add: fifo_rblock_reject word_less_nat_alt)
next
  case False
  have wf: "fifo_wf f" using inv by (rule fifo_inv_wf)
  have le: "unat len \<le> unat (used f)" using False by (simp add: word_less_nat_alt)
  obtain f1 dest1 where res: "fifo_rblock f dest len = Inr (len, f1, dest1)"
    and d1: "dest1 = take (unat len) (held f) @ drop (unat len) dest"
    using fifo_rblock_accept [OF wf dest False] by simp
  note post = fifo_rblock_post [OF wf dest False res]
  have tk: "take (unat len) dest1 = take (unat len) (held f)"
    unfolding d1 using le length_held [OF wf] by simp
  have h: "held f = take (unat len) dest1 @ held f1"
    unfolding tk post(10) by simp
  have u: "unat (used f1) + unat len = unat (used f)"
    using post(8) le by simp
  show ?thesis
    using res post(2,3) fifo_rblock_inv [OF inv dest False res] h u
    by (intro exI [of _ len] exI [of _ f1] exI [of _ dest1]) simp
qed

lemma fifo_used_step:
  "fifo_used f = (used f, f\<lparr>mtx := Suc (mtx f)\<rparr>)"
  by (simp add: fifo_used_def diag_os_lock_def Let_def)

lemma fifo_inv_mtx: "fifo_inv (f\<lparr>mtx := m\<rparr>) = fifo_inv f"
  by (simp add: fifo_inv_def fifo_wf_def)

lemma run_ops_inv:
  assumes "fifo_inv f" "list_all op_fits ops"
  shows "\<exists>w' r' f'. run_ops (w, r, f) ops = Inr (w', r', f') \<and> fifo_inv f' \<and> siz f' = siz f \<and>
           w' + r + unat (used f) = w + r' + unat (used f')"
  using assms
proof (induction ops arbitrary: w r f)
  case Nil
  then show ?case by simp
next
  case (Cons a ops)
  have rest: "list_all op_fits ops" using Cons.prems by simp
  show ?case
  proof (cases a)
    case (Try_write src len)
    then have "unat len \<le> length src" using Cons.prems by simp
    from fifo_wblock_step [OF Cons.prems(1) this]
    obtain n f1 where s: "fifo_wblock f src len = Inr (n, f1)" "fifo_inv f1" "siz f1 = siz f"
      "unat (used f1) = unat (used f) + unat n" by blast
    from Cons.IH [OF s(2) rest, of "w + unat n" r]
    show ?thesis using s Try_write by auto
  next
    case (Try_read dest len)
    then have "unat len \<le> length dest" using Cons.prems by simp
    from fifo_rblock_step [OF Cons.prems(1) this]
    obtain n f1 dest1 where s: "fifo_rblock f dest len = Inr (n, f1, dest1)" "fifo_inv f1"
      "siz f1 = siz f" "unat (used f1) + unat n = unat (used f)" by blast
    from Cons.IH [OF s(2) rest, of w "r + unat n"]
    show ?thesis using s Try_read by auto
  next
    case Amount_held
    have "fifo_inv (f\<lparr>mtx := Suc (mtx f)\<rparr>)" using Cons.prems by (simp add: fifo_inv_mtx)
    from Cons.IH [OF this rest, of w r]
    show ?thesis using Amount_held by (auto simp: fifo_used_step)
  qed
qed

lemma write_all_held:
  assumes "fifo_inv f" "write_all f ss = Inr (map length ss, f1)"
  shows "fifo_inv f1 \<and> held f1 = held f @ concat ss \<and> siz f1 = siz f"
  using assms
proof (induction ss arbitrary: f)
  case Nil
  then show ?case by simp
next
  case (Cons s ss)
  let ?len = "of_nat (length s) :: uint"
  have fits: "unat ?len \<le> length s"
    by (simp add: unat_of_nat)
  from fifo_wblock_step [OF Cons.prems(1) fits]
  obtain n f2 where st: "fifo_wblock f s ?len = Inr (n, f2)" "fifo_inv f2" "siz f2 = siz f"
    "held f2 = held f @ take (unat n) s" by blast
  obtain ns where r: "write_all f2 ss = Inr (ns, f1)" and n: "unat n = length s" and
    ns: "ns = map length ss"
    using Cons.prems(2) st(1) by (auto split: sum.splits)
  have "fifo_inv f1 \<and> held f1 = held f2 @ concat ss \<and> siz f1 = siz f2"
    using Cons.IH [OF st(2)] r ns by simp
  then show ?case using st n by simp
qed

lemma req_pair: "req_len (dest, len) = unat len" "req_fits (dest, len) = (unat len \<le> length dest)"
  by (simp_all add: req_len_def req_fits_def)

lemma read_all_held:
  assumes "fifo_inv f" "list_all req_fits reqs" "sum_list (map req_len reqs) = unat (used f)"
  shows "\<exists>ps f2. read_all f reqs = Inr (ps, f2) \<and> concat ps = held f \<and>
           map length ps = map req_len reqs \<and> used f2 = 0"
  using assms
proof (induction reqs arbitrary: f)
  case Nil
  then have "unat (used f) = 0" by simp
  then have "used f = 0" by (simp add: unat_eq_zero)
  then show ?case by (simp add: held_def)
next
  case (Cons q reqs)
  obtain dest len where q: "q = (dest, len)" by (cases q)
  have fits: "unat len \<le> length dest" using Cons.prems(2) q by (simp add: req_pair)
  have le: "unat len \<le> unat (used f)" using Cons.prems(3) q by (simp add: req_pair)
  from fifo_rblock_step [OF Cons.prems(1) fits]
  obtain n f1 dest1 where st: "fifo_rblock f dest len = Inr (n, f1, dest1)" "fifo_inv f1"
    "unat (used f1) + unat n = unat (used f)" "held f = take (unat n) dest1 @ held f1"
    "unat len \<le> unat (used f) \<longrightarrow> n = len" by blast
  have n: "n = len" using st(5) le by simp
  have wf1: "fifo_wf f1" using st(2) by (rule fifo_inv_wf)
  have wf: "fifo_wf f" using Cons.prems(1) by (rule fifo_inv_wf)
  have "sum_list (map req_len reqs) = unat (used f1)"
    using Cons.prems(3) st(3) n q by (simp add: req_pair)
  from Cons.IH [OF st(2) _ this]
  obtain ps f2 where r: "read_all f1 reqs = Inr (ps, f2)" "concat ps = held f1"
    "map length ps = map req_len reqs" "used f2 = 0"
    using Cons.prems(2) by auto
  have "length (take (unat n) dest1) = unat len"
  proof -
    have "length (held f) = length (take (unat n) dest1) + length (held f1)"
      using st(4) by (metis length_append)
    then show ?thesis
      using length_held [OF wf] length_held [OF wf1] st(3) n by simp
  qed
  then show ?case
    using st(1,4) r q by (simp add: req_pair)
qed

lemma fifo_round_trip_from:
  assumes "fifo_inv f"
    and "write_all f ss = Inr (map length ss, f1)"
    and "list_all req_fits reqs"
    and "sum_list (map req_len reqs) = unat (used f) + length (concat ss)"
  shows "\<exists>ps f2. read_all f1 reqs = Inr (ps, f2) \<and> concat ps = held f @ concat ss \<and>
           map length ps = map req_len reqs \<and> used f2 = 0"
proof -
  have w: "fifo_inv f1 \<and> held f1 = held f @ concat ss \<and> siz f1 = siz f"
    using assms(1,2) by (rule write_all_held)
  have "length (held f1) = unat (used f1)"
    using w by (intro length_held fifo_inv_wf) simp
  moreover have "length (held f) = unat (used f)"
    using assms(1) by (intro length_held fifo_inv_wf)
  ultimately have "sum_list (map req_len reqs) = unat (used f1)"
    using assms(4) w by simp
  from read_all_held [OF _ assms(3) this] w
  show ?thesis by simp
qed

section \<open>One iteration of the flush loop\<close>

text \<open>
  Started with \<open>remsiz\<close> at most the amount held, an iteration reads
  \<open>min remsiz MEMBUF_CHUNKS\<close> bytes, hands them to \<open>fwrite\<close>, and either returns on
  a short write or goes on with what is left of \<open>remsiz\<close>, again at most the amount
  then held.
\<close>

lemma state_simps:
  "fifo (membuf (set_fifo s f)) = f"
  "out_file (membuf (set_fifo s f)) = out_file (membuf s)"
  "stdout (set_fifo s f) = stdout s"
  "fifo (membuf (set_out_file s stream)) = fifo (membuf s)"
  "out_file (membuf (set_out_file s stream)) = stream"
  "stdout (set_out_file s stream) = stdout s"
  "membuf (printf s str) = membuf s"
  "stdout (printf s str) = stdout s @ str"
  by (simp_all add: set_fifo_def set_out_file_def printf_def)

lemma put_bytes_simps:
  "writes (put_bytes stream bs) = writes stream @ [take (room_for (room stream) (length bs)) bs]"
  "room (put_bytes stream bs) = tl (room stream)"
  by (simp_all add: put_bytes_def accepted_def)

lemma unat_MEMBUF_CHUNKS: "unat MEMBUF_CHUNKS = 4096"
  by (simp add: MEMBUF_CHUNKS_def)

lemma oneshot_nat:
  fixes remsiz :: uint
  shows "unat (if MEMBUF_CHUNKS < remsiz then MEMBUF_CHUNKS else remsiz) =
         min (unat remsiz) (unat MEMBUF_CHUNKS)"
  by (auto simp: word_less_nat_alt min_def)

lemma set_out_file_twice: "set_out_file (set_out_file s a) b = set_out_file s b"
  by (simp add: set_out_file_def)

lemma flush_loop_unfold:
  assumes "remsiz \<noteq> 0"
    and "(if MEMBUF_CHUNKS < remsiz then MEMBUF_CHUNKS else remsiz) = one"
    and "fifo_rblock (fifo (membuf s)) tb one = Inr (one, f1, tb1)"
    and "fwrite tb1 1 (unat one) (out_file (membuf s)) = Inr (a, stream1)"
  shows "membuf_flush_loop tb remsiz s =
     (if a \<noteq> unat one
      then Inr (Fwrite_fatal, set_out_file (set_fifo s f1) (fprintf stream1 fwrite_fatal_msg))
      else membuf_flush_loop tb1 (remsiz - one)
             (printf (set_out_file (set_fifo s f1) stream1) (''fc'' @ [CHR 0x0A])))"
  using assms
  by (subst membuf_flush_loop.simps) (simp add: Let_def state_simps set_out_file_twice)

lemma flush_iter:
  assumes wf: "fifo_wf (fifo (membuf s))" and tb: "length tb = unat MEMBUF_CHUNKS"
    and le: "remsiz \<le> used (fifo (membuf s))" and nz: "remsiz \<noteq> 0"
    and k: "k = min (unat remsiz) (unat MEMBUF_CHUNKS)"
    and one: "one = (if MEMBUF_CHUNKS < remsiz then MEMBUF_CHUNKS else remsiz)"
  shows "\<exists>f1 tb1. fifo_wf f1 \<and> held f1 = drop k (held (fifo (membuf s))) \<and>
           unat (used f1) = unat (used (fifo (membuf s))) - k \<and>
           siz f1 = siz (fifo (membuf s)) \<and> data f1 = data (fifo (membuf s)) \<and>
           wp f1 = wp (fifo (membuf s)) \<and> mtx f1 = mtx (fifo (membuf s)) \<and>
           length tb1 = unat MEMBUF_CHUNKS \<and>
           remsiz - one \<le> used f1 \<and> unat (remsiz - one) = unat remsiz - k \<and>
           fifo_rblock (fifo (membuf s)) tb one = Inr (one, f1, tb1) \<and>
           membuf_flush_loop tb remsiz s =
             (if accepted (out_file (membuf s)) k \<noteq> k
              then Inr (Fwrite_fatal,
                     set_out_file (set_fifo s f1)
                       (fprintf (put_bytes (out_file (membuf s))
                          (take k (held (fifo (membuf s))))) fwrite_fatal_msg))
              else membuf_flush_loop tb1 (remsiz - one)
                     (printf (set_out_file (set_fifo s f1)
                        (put_bytes (out_file (membuf s)) (take k (held (fifo (membuf s))))))
                        (''fc'' @ [CHR 0x0A])))"
proof -
  let ?f = "fifo (membuf s)"
  have uo: "unat one = k" unfolding k one by (rule oneshot_nat)
  have ole: "one \<le> remsiz" unfolding one by auto
  have fit: "\<not> used ?f < one" using ole le by auto
  have kl: "k \<le> length tb" using tb k by simp
  have dest: "unat one \<le> length tb" using kl uo by simp
  let ?tb1 = "take (unat one) (held ?f) @ drop (unat one) tb"
  obtain f1 where res: "fifo_rblock ?f tb one = Inr (one, f1, ?tb1)"
    using fifo_rblock_accept [OF wf dest fit] by simp
  note post = fifo_rblock_post [OF wf dest fit res]
  have lh: "length (held ?f) = unat (used ?f)" using wf by (rule length_held)
  have ru: "unat remsiz \<le> unat (used ?f)" using le by (simp add: word_le_nat_alt)
  have kh: "k \<le> length (held ?f)" using lh k ru by simp
  have ltb1: "length ?tb1 = unat MEMBUF_CHUNKS"
    using kh kl tb uo by simp
  have tk: "take k ?tb1 = take k (held ?f)"
    using kh uo by simp
  have kpos: "0 < k" using nz k by (simp add: unat_MEMBUF_CHUNKS unat_gt_0)
  have fw: "fwrite ?tb1 1 (unat one) (out_file (membuf s)) =
      Inr (accepted (out_file (membuf s)) k, put_bytes (out_file (membuf s)) (take k (held ?f)))"
    using ltb1 kl tb tk uo kpos by (simp add: fwrite_def)
  have loop: "membuf_flush_loop tb remsiz s =
             (if accepted (out_file (membuf s)) k \<noteq> k
              then Inr (Fwrite_fatal,
                     set_out_file (set_fifo s f1)
                       (fprintf (put_bytes (out_file (membuf s)) (take k (held ?f)))
                          fwrite_fatal_msg))
              else membuf_flush_loop ?tb1 (remsiz - one)
                     (printf (set_out_file (set_fifo s f1)
                        (put_bytes (out_file (membuf s)) (take k (held ?f))))
                        (''fc'' @ [CHR 0x0A])))"
    using flush_loop_unfold [OF nz one [symmetric] res fw] uo by simp
  have rs: "unat (remsiz - one) = unat remsiz - k"
    using unat_sub [OF ole] uo by simp
  have "unat (remsiz - one) \<le> unat (used f1)"
    unfolding rs post(8) uo using ru by simp
  then have rle: "remsiz - one \<le> used f1" by (simp add: word_le_nat_alt)
  show ?thesis
    using post(2-6) post(8) post(10) ltb1 res loop uo rle rs
    by (intro exI [of _ f1] exI [of _ ?tb1]) simp
qed

section \<open>The flush loop and the drain on lists\<close>

text \<open>
  A run of the loop works on the first \<open>remsiz\<close> bytes held: it ends at the
  \<open>return\<close> that \<open>drain_abs\<close> gives for them, having taken out of the FIFO and put
  on the stream what \<open>drain_abs\<close> gives; the properties of a drain are then
  properties of \<open>drain_abs\<close>.
\<close>

lemma room_for_le: "room_for rm n \<le> n"
  by (simp add: room_for_def split: list.splits)

lemma chunks_Nil: "chunks c [] = []"
  by (simp add: chunks.simps)

lemma drain_abs_stop: "c = 0 \<or> h = [] \<Longrightarrow> drain_abs c rm h = (Flushed, 0, [], rm)"
  by (subst drain_abs.simps) simp

lemma drain_abs_short:
  "c \<noteq> 0 \<Longrightarrow> h \<noteq> [] \<Longrightarrow> k = min (length h) c \<Longrightarrow> room_for rm k \<noteq> k \<Longrightarrow>
   drain_abs c rm h = (Fwrite_fatal, k, [take (room_for rm k) h], tl rm)"
  by (subst drain_abs.simps) (simp add: Let_def)

lemma drain_abs_full:
  "c \<noteq> 0 \<Longrightarrow> h \<noteq> [] \<Longrightarrow> k = min (length h) c \<Longrightarrow> room_for rm k = k \<Longrightarrow>
   drain_abs c (tl rm) (drop k h) = (ex, n, ws, rm') \<Longrightarrow>
   drain_abs c rm h = (ex, k + n, take k h # ws, rm')"
  by (subst drain_abs.simps) (simp add: Let_def)

lemma flush_loop_snapshot:
  assumes "fifo_wf (fifo (membuf s))" and "length tb = unat MEMBUF_CHUNKS"
    and "remsiz \<le> used (fifo (membuf s))"
    and "drain_abs (unat MEMBUF_CHUNKS) (room (out_file (membuf s)))
           (take (unat remsiz) (held (fifo (membuf s)))) = (ex, n, ws, rm')"
  shows "\<exists>s'. membuf_flush_loop tb remsiz s = Inr (ex, s') \<and>
           fifo_wf (fifo (membuf s')) \<and>
           held (fifo (membuf s')) = drop n (held (fifo (membuf s))) \<and>
           unat (used (fifo (membuf s'))) = unat (used (fifo (membuf s))) - n \<and>
           n \<le> unat remsiz \<and>
           siz (fifo (membuf s')) = siz (fifo (membuf s)) \<and>
           data (fifo (membuf s')) = data (fifo (membuf s)) \<and>
           wp (fifo (membuf s')) = wp (fifo (membuf s)) \<and>
           mtx (fifo (membuf s')) = mtx (fifo (membuf s)) \<and>
           writes (out_file (membuf s')) =
             writes (out_file (membuf s)) @ ws @
             (if ex = Fwrite_fatal
              then [take (room_for rm' (length (bytes_of fwrite_fatal_msg)))
                      (bytes_of fwrite_fatal_msg)]
              else [])"
  using assms
proof (induction "unat remsiz" arbitrary: s tb remsiz ex n ws rm' rule: less_induct)
  case less
  let ?f = "fifo (membuf s)"
  let ?o = "out_file (membuf s)"
  let ?h = "held ?f"
  let ?h' = "take (unat remsiz) ?h"
  let ?c = "unat MEMBUF_CHUNKS"
  note wf = less.prems(1) and tb = less.prems(2) and le = less.prems(3) and R = less.prems(4)
  have lh: "length ?h = unat (used ?f)" using wf by (rule length_held)
  have ru: "unat remsiz \<le> unat (used ?f)" using le by (simp add: word_le_nat_alt)
  have lh': "length ?h' = unat remsiz" using lh ru by simp
  show ?case
  proof (cases "remsiz = 0")
    case True
    then have "?h' = []" by simp
    then have "drain_abs ?c (room ?o) ?h' = (Flushed, 0, [], room ?o)"
      by (intro drain_abs_stop) simp
    then have "ex = Flushed" "n = 0" "ws = []"
      using R by simp_all
    then show ?thesis
      using True wf by (subst membuf_flush_loop.simps) simp
  next
    case False
    define k where "k = min (unat remsiz) ?c"
    define one where "one = (if MEMBUF_CHUNKS < remsiz then MEMBUF_CHUNKS else remsiz)"
    have kpos: "0 < k"
      using False by (simp add: k_def unat_MEMBUF_CHUNKS unat_gt_0)
    have hne: "?h' \<noteq> []" using lh' False by (auto simp: unat_eq_zero)
    have cnz: "?c \<noteq> 0" by (simp add: unat_MEMBUF_CHUNKS)
    have kh: "k = min (length ?h') ?c" using lh' by (simp add: k_def)
    have kr: "k \<le> unat remsiz" by (simp add: k_def)
    from flush_iter [OF wf tb le False k_def one_def]
    obtain f1 tb1 where it: "fifo_wf f1" "held f1 = drop k ?h"
      "unat (used f1) = unat (used ?f) - k" "siz f1 = siz ?f" "data f1 = data ?f"
      "wp f1 = wp ?f" "mtx f1 = mtx ?f" "length tb1 = ?c"
      "remsiz - one \<le> used f1" "unat (remsiz - one) = unat remsiz - k"
      and loop: "membuf_flush_loop tb remsiz s =
             (if accepted ?o k \<noteq> k
              then Inr (Fwrite_fatal,
                     set_out_file (set_fifo s f1)
                       (fprintf (put_bytes ?o (take k ?h)) fwrite_fatal_msg))
              else membuf_flush_loop tb1 (remsiz - one)
                     (printf (set_out_file (set_fifo s f1) (put_bytes ?o (take k ?h)))
                        (''fc'' @ [CHR 0x0A])))"
      by blast
    have lk: "length (take k ?h) = k" using kr ru lh by simp
    have tk: "take k ?h' = take k ?h" using kr by (simp add: min_def)
    have dk: "drop k ?h' = take (unat (remsiz - one)) (held f1)"
      unfolding it(2) it(10) by (simp add: drop_take)
    show ?thesis
    proof (cases "room_for (room ?o) k = k")
      case short: False
      have "drain_abs ?c (room ?o) ?h' =
              (Fwrite_fatal, k, [take (room_for (room ?o) k) ?h'], tl (room ?o))"
        using cnz hne kh short by (rule drain_abs_short)
      then have r: "ex = Fwrite_fatal" "n = k" "ws = [take (room_for (room ?o) k) ?h']"
        "rm' = tl (room ?o)"
        using R by simp_all
      have a: "take (room_for (room ?o) k) (take k ?h) = take (room_for (room ?o) k) ?h"
        using room_for_le [of "room ?o" k] by (simp add: min_def)
      have b: "take (room_for (room ?o) k) ?h' = take (room_for (room ?o) k) ?h"
        using room_for_le [of "room ?o" k] kr by (simp add: min_def)
      show ?thesis
        using short loop it(1-8) r(1,2,4) lk kr a
        unfolding r(3) b
        by (simp add: accepted_def state_simps fprintf_def put_bytes_simps)
    next
      case full: True
      obtain ex1 n1 ws1 rm1 where R1: "drain_abs ?c (tl (room ?o)) (drop k ?h') = (ex1, n1, ws1, rm1)"
        by (cases "drain_abs ?c (tl (room ?o)) (drop k ?h')") auto
      have "drain_abs ?c (room ?o) ?h' = (ex1, k + n1, take k ?h' # ws1, rm1)"
        using cnz hne kh full R1 by (rule drain_abs_full)
      then have r: "ex = ex1" "n = k + n1" "ws = take k ?h # ws1" "rm' = rm1"
        using R tk by simp_all
      let ?s1 = "printf (set_out_file (set_fifo s f1) (put_bytes ?o (take k ?h)))
                   (''fc'' @ [CHR 0x0A])"
      have f1: "fifo (membuf ?s1) = f1" by (simp add: state_simps)
      have o1: "out_file (membuf ?s1) = put_bytes ?o (take k ?h)" by (simp add: state_simps)
      have less1: "unat (remsiz - one) < unat remsiz"
        using it(10) kpos False by (simp add: unat_gt_0)
      have wf1: "fifo_wf (fifo (membuf ?s1))" unfolding f1 by (rule it(1))
      have le1: "remsiz - one \<le> used (fifo (membuf ?s1))" unfolding f1 by (rule it(9))
      have R1': "drain_abs ?c (room (out_file (membuf ?s1)))
                   (take (unat (remsiz - one)) (held (fifo (membuf ?s1)))) =
                   (ex, n1, ws1, rm')"
        unfolding f1 o1 using R1 r dk by (simp add: put_bytes_simps)
      from less.hyps [OF less1 wf1 it(8) le1 R1']
      obtain s' where ih: "membuf_flush_loop tb1 (remsiz - one) ?s1 = Inr (ex, s')"
        "fifo_wf (fifo (membuf s'))"
        "held (fifo (membuf s')) = drop n1 (held f1)"
        "unat (used (fifo (membuf s'))) = unat (used f1) - n1"
        "n1 \<le> unat (remsiz - one)"
        "siz (fifo (membuf s')) = siz f1" "data (fifo (membuf s')) = data f1"
        "wp (fifo (membuf s')) = wp f1" "mtx (fifo (membuf s')) = mtx f1"
        "writes (out_file (membuf s')) =
             writes (put_bytes ?o (take k ?h)) @ ws1 @
             (if ex = Fwrite_fatal
              then [take (room_for rm' (length (bytes_of fwrite_fatal_msg)))
                      (bytes_of fwrite_fatal_msg)]
              else [])"
        unfolding f1 o1 by blast
      have "membuf_flush_loop tb remsiz s = Inr (ex, s')"
        using loop full ih(1) by (simp add: accepted_def)
      moreover have "held (fifo (membuf s')) = drop n ?h"
        using ih(3) it(2) r by (simp add: add.commute)
      moreover have "unat (used (fifo (membuf s'))) = unat (used ?f) - n"
        using ih(4) it(3) r by simp
      moreover have "n \<le> unat remsiz"
        using ih(5) it(10) r kr by simp
      moreover have "writes (out_file (membuf s')) =
             writes ?o @ ws @
             (if ex = Fwrite_fatal
              then [take (room_for rm' (length (bytes_of fwrite_fatal_msg)))
                      (bytes_of fwrite_fatal_msg)]
              else [])"
        unfolding ih(10) using full lk r by (simp add: put_bytes_simps)
      ultimately show ?thesis
        using ih(2,6-9) it(4-7) by (intro exI [of _ s']) simp
    qed
  qed
qed

lemma flush_loop_refines:
  assumes "fifo_wf (fifo (membuf s))" and "length tb = unat MEMBUF_CHUNKS"
    and "drain_abs (unat MEMBUF_CHUNKS) (room (out_file (membuf s))) (held (fifo (membuf s))) =
           (ex, n, ws, rm')"
  shows "\<exists>s'. membuf_flush_loop tb (used (fifo (membuf s))) s = Inr (ex, s') \<and>
           fifo_wf (fifo (membuf s')) \<and>
           held (fifo (membuf s')) = drop n (held (fifo (membuf s))) \<and>
           unat (used (fifo (membuf s'))) = unat (used (fifo (membuf s))) - n \<and>
           siz (fifo (membuf s')) = siz (fifo (membuf s)) \<and>
           data (fifo (membuf s')) = data (fifo (membuf s)) \<and>
           wp (fifo (membuf s')) = wp (fifo (membuf s)) \<and>
           mtx (fifo (membuf s')) = mtx (fifo (membuf s)) \<and>
           writes (out_file (membuf s')) =
             writes (out_file (membuf s)) @ ws @
             (if ex = Fwrite_fatal
              then [take (room_for rm' (length (bytes_of fwrite_fatal_msg)))
                      (bytes_of fwrite_fatal_msg)]
              else [])"
proof -
  have "take (unat (used (fifo (membuf s)))) (held (fifo (membuf s))) = held (fifo (membuf s))"
    using length_held [OF assms(1)] by simp
  then have R: "drain_abs (unat MEMBUF_CHUNKS) (room (out_file (membuf s)))
           (take (unat (used (fifo (membuf s)))) (held (fifo (membuf s)))) = (ex, n, ws, rm')"
    using assms(3) by simp
  from flush_loop_snapshot [OF assms(1,2) order_refl R]
  show ?thesis by blast
qed

lemma drain_abs_not_read_fatal: "fst (drain_abs c rm h) \<noteq> Fifo_read_fatal"
proof (induction c rm h rule: drain_abs.induct)
  case (1 c rm h)
  show ?case
  proof (cases "c = 0 \<or> h = []")
    case True
    then show ?thesis by (simp add: drain_abs_stop)
  next
    case False
    let ?k = "min (length h) c"
    show ?thesis
    proof (cases "room_for rm ?k = ?k")
      case short: False
      then show ?thesis using False by (simp add: drain_abs_short [OF _ _ refl])
    next
      case full: True
      obtain ex1 n1 ws1 rm1 where R1: "drain_abs c (tl rm) (drop ?k h) = (ex1, n1, ws1, rm1)"
        by (cases "drain_abs c (tl rm) (drop ?k h)") auto
      have "fst (drain_abs c (tl rm) (drop ?k h)) \<noteq> Fifo_read_fatal"
        using False full by (intro "1.IH" [OF False refl refl]) auto
      then show ?thesis
        using False full R1 by (simp add: drain_abs_full [OF _ _ refl full R1])
    qed
  qed
qed



lemma drain_abs_fwrite_fatal:
  "drain_abs c rm h = (Fwrite_fatal, n, ws, rm') \<Longrightarrow>
   \<exists>d a. c dvd d \<and> d < length h \<and> a < min (length h - d) c \<and>
         n = d + min (length h - d) c \<and> ws = chunks c (take d h) @ [take a (drop d h)]"
proof (induction c rm h arbitrary: n ws rm' rule: drain_abs.induct)
  case (1 c rm h)
  show ?case
  proof (cases "c = 0 \<or> h = []")
    case True
    then show ?thesis
      using "1.prems" by (simp add: drain_abs_stop)
  next
    case False
    then have cnz: "c \<noteq> 0" and hne: "h \<noteq> []" by simp_all
    let ?k = "min (length h) c"
    have kpos: "0 < ?k" using False by auto
    show ?thesis
    proof (cases "room_for rm ?k = ?k")
      case short: False
      have r: "n = ?k" "ws = [take (room_for rm ?k) h]"
        using "1.prems" drain_abs_short [OF cnz hne refl short] by auto
      have "room_for rm ?k < ?k"
        using room_for_le short by (rule le_neq_implies_less)
      then show ?thesis
        using r False kpos
        by (intro exI [of _ 0] exI [of _ "room_for rm ?k"]) (simp add: chunks_Nil)
    next
      case full: True
      obtain ex1 n1 ws1 rm1 where R1: "drain_abs c (tl rm) (drop ?k h) = (ex1, n1, ws1, rm1)"
        by (cases "drain_abs c (tl rm) (drop ?k h)") auto
      have r: "ex1 = Fwrite_fatal" "n = ?k + n1" "ws = take ?k h # ws1"
        using "1.prems" drain_abs_full [OF cnz hne refl full R1] by simp_all
      have "\<exists>d a. c dvd d \<and> d < length (drop ?k h) \<and> a < min (length (drop ?k h) - d) c \<and>
         n1 = d + min (length (drop ?k h) - d) c \<and>
         ws1 = chunks c (take d (drop ?k h)) @ [take a (drop d (drop ?k h))]"
        using full R1 r(1) by (intro "1.IH" [OF False refl refl]) auto
      then obtain d a where da: "c dvd d" "d < length (drop ?k h)"
        "a < min (length (drop ?k h) - d) c" "n1 = d + min (length (drop ?k h) - d) c"
        "ws1 = chunks c (take d (drop ?k h)) @ [take a (drop d (drop ?k h))]"
        by blast
      have kc: "?k = c" using da(2) by (simp add: min_def split: if_splits)
      have cl: "c \<le> length h" using kc by (simp add: min_def split: if_splits)
      have ne: "take (c + d) h \<noteq> []" using False cl by auto
      have ch: "chunks c (take (c + d) h) = take c h # chunks c (take d (drop c h))"
        using False cl ne
        by (subst chunks.simps) (simp add: min_def take_drop add.commute)
      show ?thesis
        using da r kc cl ch
        by (intro exI [of _ "c + d"] exI [of _ a]) (simp add: add.commute)
    qed
  qed
qed

lemma fifo_wf_mtx: "fifo_wf (f\<lparr>mtx := m\<rparr>) = fifo_wf f"
  by (simp add: fifo_wf_def)

lemma held_mtx: "held (f\<lparr>mtx := m\<rparr>) = held f"
  by (simp add: held_def)

lemma flush_run_refines:
  assumes "fifo_wf (fifo (membuf s))" and "length tb = unat MEMBUF_CHUNKS"
    and "drain_abs (unat MEMBUF_CHUNKS) (room (out_file (membuf s))) (held (fifo (membuf s))) =
           (ex, n, ws, rm')"
  shows "\<exists>s'. membuf_flush_run tb s = Inr (ex, s') \<and>
           fifo_wf (fifo (membuf s')) \<and>
           held (fifo (membuf s')) = drop n (held (fifo (membuf s))) \<and>
           unat (used (fifo (membuf s'))) = unat (used (fifo (membuf s))) - n \<and>
           siz (fifo (membuf s')) = siz (fifo (membuf s)) \<and>
           data (fifo (membuf s')) = data (fifo (membuf s)) \<and>
           wp (fifo (membuf s')) = wp (fifo (membuf s)) \<and>
           mtx (fifo (membuf s')) = Suc (mtx (fifo (membuf s))) \<and>
           writes (out_file (membuf s')) =
             writes (out_file (membuf s)) @ ws @
             (if ex = Fwrite_fatal
              then [take (room_for rm' (length (bytes_of fwrite_fatal_msg)))
                      (bytes_of fwrite_fatal_msg)]
              else [])"
proof -
  let ?f0 = "(fifo (membuf s))\<lparr>mtx := Suc (mtx (fifo (membuf s)))\<rparr>"
  let ?s0 = "set_fifo s ?f0"
  have run: "membuf_flush_run tb s = membuf_flush_loop tb (used (fifo (membuf ?s0))) ?s0"
    by (simp add: membuf_flush_run_def fifo_used_step state_simps)
  have wf0: "fifo_wf (fifo (membuf ?s0))"
    using assms(1) by (simp add: state_simps fifo_wf_mtx)
  have R0: "drain_abs (unat MEMBUF_CHUNKS) (room (out_file (membuf ?s0)))
              (held (fifo (membuf ?s0))) = (ex, n, ws, rm')"
    using assms(3) by (simp add: state_simps held_mtx)
  from flush_loop_refines [OF wf0 assms(2) R0]
  show ?thesis
    unfolding run by (simp add: state_simps held_mtx)
qed

lemma membuf_flush_of_run:
  "membuf_flush_run tb s = Inr (ex, s') \<Longrightarrow> membuf_flush tb s = Inr s'"
  by (simp add: membuf_flush_def)

lemma held_example:
  "held \<lparr>mtx = m, rp = 6, wp = 1, siz = 8, used = 3, data = [1, 2, 3, 4, 5, 6, 7, 8]\<rparr> =
     [7, 8, 1]"
  by (simp add: held_def rotate_drop_take)


lemma fwrite_failure_run:
  "membuf_flush_run (replicate 4096 0)
     \<lparr>membuf = \<lparr>out_file = \<lparr>writes = [], room = [1]\<rparr>,
                 fifo = \<lparr>mtx = 0, rp = 6, wp = 1, siz = 8, used = 3,
                         data = [1, 2, 3, 4, 5, 6, 7, 8]\<rparr>\<rparr>,
      stdout = []\<rparr> =
   Inr (Fwrite_fatal,
     \<lparr>membuf = \<lparr>out_file = \<lparr>writes = [[7], bytes_of fwrite_fatal_msg], room = []\<rparr>,
                 fifo = \<lparr>mtx = 1, rp = 1, wp = 1, siz = 8, used = 0,
                         data = [1, 2, 3, 4, 5, 6, 7, 8]\<rparr>\<rparr>,
      stdout = []\<rparr>)"
proof -
  let ?F0 = "\<lparr>mtx = 1, rp = 6, wp = 1, siz = 8, used = 3, data = [1, 2, 3, 4, 5, 6, 7, 8 :: u8]\<rparr>"
  let ?S0 = "\<lparr>membuf = \<lparr>out_file = \<lparr>writes = [], room = [1]\<rparr>, fifo = ?F0\<rparr>, stdout = []\<rparr>"
  let ?tb = "replicate 4096 (0 :: u8)"
  have wf: "fifo_wf ?F0" by (simp add: fifo_wf_def)
  have dest: "unat (3 :: uint) \<le> length ?tb" by simp
  have fit: "\<not> used ?F0 < 3" by simp
  have res: "fifo_rblock (fifo (membuf ?S0)) ?tb 3 =
      Inr (3, \<lparr>mtx = 1, rp = 1, wp = 1, siz = 8, used = 0, data = [1, 2, 3, 4, 5, 6, 7, 8]\<rparr>,
           [7, 8, 1] @ replicate 4093 0)"
    using fifo_rblock_accept [OF wf dest fit] by (simp add: held_example)
  have fw: "fwrite ([7, 8, 1] @ replicate 4093 0) 1 (unat (3 :: uint)) (out_file (membuf ?S0)) =
      Inr (1, \<lparr>writes = [[7]], room = []\<rparr>)"
    by (simp add: fwrite_def accepted_def room_for_def put_bytes_def)
  have one: "(if MEMBUF_CHUNKS < (3 :: uint) then MEMBUF_CHUNKS else 3) = 3"
    by (simp add: MEMBUF_CHUNKS_def)
  have nz: "(3 :: uint) \<noteq> 0" by simp
  have "membuf_flush_loop ?tb 3 ?S0 =
     Inr (Fwrite_fatal,
     \<lparr>membuf = \<lparr>out_file = \<lparr>writes = [[7], bytes_of fwrite_fatal_msg], room = []\<rparr>,
                 fifo = \<lparr>mtx = 1, rp = 1, wp = 1, siz = 8, used = 0,
                         data = [1, 2, 3, 4, 5, 6, 7, 8]\<rparr>\<rparr>,
      stdout = []\<rparr>)"
    unfolding flush_loop_unfold [OF nz one res fw]
    by (simp add: set_out_file_def set_fifo_def fprintf_def put_bytes_def accepted_def
        room_for_def)
  then show ?thesis
    by (simp add: membuf_flush_run_def fifo_used_def diag_os_lock_def set_fifo_def)
qed


section \<open>The lock after a block\<close>

lemma fifo_wblock_releases_lock:
  "fifo_wblock f src len = Inr (n, f') \<Longrightarrow> mtx f' = mtx f"
  by (auto simp: fifo_wblock_def diag_os_lock_def diag_os_unlock_def Let_def
      split: if_splits sum.splits)

lemma fifo_rblock_releases_lock:
  "fifo_rblock f dest len = Inr (n, f', dest') \<Longrightarrow> mtx f' = mtx f"
  by (auto simp: fifo_rblock_def diag_os_lock_def diag_os_unlock_def Let_def
      split: if_splits sum.splits)

text \<open>
  The drain on lists when the stream accepts the first chunks in full and fewer bytes
  than the chunk on the next call.
\<close>

lemma chunks_step:
  assumes "c \<noteq> 0" "c \<le> length h"
  shows "chunks c (take (c + d) h) = take c h # chunks c (take d (drop c h))"
proof -
  have ne: "take (c + d) h \<noteq> []" using assms by auto
  show ?thesis
    using assms ne by (subst chunks.simps) (simp add: min_def take_drop add.commute)
qed

lemma drain_abs_short_at:
  assumes "c \<noteq> 0" "list_all (\<lambda>r. c \<le> r) pre" "length pre * c < length h"
    "q < min (length h - length pre * c) c"
  shows "drain_abs c (pre @ q # rest) h =
     (Fwrite_fatal, length pre * c + min (length h - length pre * c) c,
      chunks c (take (length pre * c) h) @ [take q (drop (length pre * c) h)], rest)"
  using assms
proof (induction pre arbitrary: h)
  case Nil
  have hne: "h \<noteq> []" using Nil.prems by auto
  have ql: "q < min (length h) c" using Nil.prems by simp
  then have "room_for (q # rest) (min (length h) c) = q"
    by (simp add: room_for_def)
  moreover have "q \<noteq> min (length h) c" using ql by (rule less_imp_neq)
  ultimately have "drain_abs c (q # rest) h =
      (Fwrite_fatal, min (length h) c, [take q h], rest)"
    using drain_abs_short [OF Nil.prems(1) hne refl, of "q # rest"] by simp
  then show ?case by (simp add: chunks_Nil)
next
  case (Cons r pre)
  have cl: "c < length h" using Cons.prems(3) by (cases "length pre") auto
  have hne: "h \<noteq> []" using cl by auto
  have k: "min (length h) c = c" using cl by simp
  have full: "room_for ((r # pre) @ q # rest) c = c"
    using Cons.prems(2) by (simp add: room_for_def)
  have l: "length pre * c < length (drop c h)" using Cons.prems(3) by simp
  have q: "q < min (length (drop c h) - length pre * c) c"
    using Cons.prems(4) by (simp add: add.commute)
  have p: "list_all (\<lambda>r. c \<le> r) pre" using Cons.prems(2) by simp
  note ih = Cons.IH [OF Cons.prems(1) p l q]
  have "drain_abs c ((r # pre) @ q # rest) h =
      (Fwrite_fatal, c + (length pre * c + min (length (drop c h) - length pre * c) c),
       take c h # (chunks c (take (length pre * c) (drop c h)) @
                   [take q (drop (length pre * c) (drop c h))]), rest)"
  proof (rule drain_abs_full [OF Cons.prems(1) hne])
    show "c = min (length h) c" using k by simp
    show "room_for ((r # pre) @ q # rest) c = c" by (rule full)
    show "drain_abs c (tl ((r # pre) @ q # rest)) (drop c h) =
      (Fwrite_fatal, length pre * c + min (length (drop c h) - length pre * c) c,
       chunks c (take (length pre * c) (drop c h)) @
       [take q (drop (length pre * c) (drop c h))], rest)"
      using ih by simp
  qed
  moreover have "chunks c (take (c + length pre * c) h) =
      take c h # chunks c (take (length pre * c) (drop c h))"
    using Cons.prems(1) cl by (intro chunks_step) simp_all
  ultimately show ?case
    by (simp add: add.commute add.left_commute)
qed

text \<open>
  Conversely, a run that ends in the branch of the failed \<open>fwrite\<close> has delivered a
  whole number of chunks and then a part of one.
\<close>

lemma fwrite_fatal_only_after_short_write:
  assumes "fifo_wf (fifo (membuf s))" and "length tempbuf = unat MEMBUF_CHUNKS"
    and "membuf_flush_run tempbuf s = Inr (Fwrite_fatal, s')"
  shows "\<exists>d a j. unat MEMBUF_CHUNKS dvd d \<and> d < length (held (fifo (membuf s))) \<and>
           a < min (length (held (fifo (membuf s))) - d) (unat MEMBUF_CHUNKS) \<and>
           held (fifo (membuf s')) =
             drop (d + min (length (held (fifo (membuf s))) - d) (unat MEMBUF_CHUNKS))
               (held (fifo (membuf s))) \<and>
           unat (used (fifo (membuf s'))) =
             length (held (fifo (membuf s))) -
             (d + min (length (held (fifo (membuf s))) - d) (unat MEMBUF_CHUNKS)) \<and>
           writes (out_file (membuf s')) =
             writes (out_file (membuf s)) @
             chunks (unat MEMBUF_CHUNKS) (take d (held (fifo (membuf s)))) @
             [take a (drop d (held (fifo (membuf s)))), take j (bytes_of fwrite_fatal_msg)] \<and>
           membuf_flush tempbuf s = Inr s'"
proof -
  let ?c = "unat MEMBUF_CHUNKS"
  let ?rm = "room (out_file (membuf s))"
  let ?h = "held (fifo (membuf s))"
  obtain ex n ws rm' where R: "drain_abs ?c ?rm ?h = (ex, n, ws, rm')"
    by (cases "drain_abs ?c ?rm ?h") auto
  from flush_run_refines [OF assms(1,2) R]
  obtain s1 where s1: "membuf_flush_run tempbuf s = Inr (ex, s1)"
    "held (fifo (membuf s1)) = drop n ?h"
    "unat (used (fifo (membuf s1))) = unat (used (fifo (membuf s))) - n"
    "writes (out_file (membuf s1)) =
             writes (out_file (membuf s)) @ ws @
             (if ex = Fwrite_fatal
              then [take (room_for rm' (length (bytes_of fwrite_fatal_msg)))
                      (bytes_of fwrite_fatal_msg)]
              else [])"
    by blast
  have e: "ex = Fwrite_fatal" "s1 = s'" using s1(1) assms(3) by simp_all
  have lh: "length ?h = unat (used (fifo (membuf s)))"
    using assms(1) by (rule length_held)
  from drain_abs_fwrite_fatal [OF R [unfolded e(1)]]
  obtain d a where da: "?c dvd d" "d < length ?h" "a < min (length ?h - d) ?c"
    "n = d + min (length ?h - d) ?c" "ws = chunks ?c (take d ?h) @ [take a (drop d ?h)]"
    by blast
  have w: "writes (out_file (membuf s')) =
             writes (out_file (membuf s)) @ chunks ?c (take d ?h) @
             [take a (drop d ?h),
              take (room_for rm' (length (bytes_of fwrite_fatal_msg))) (bytes_of fwrite_fatal_msg)]"
    using s1(4) e da(5) by simp
  have m: "membuf_flush tempbuf s = Inr s'"
    using assms(3) by (rule membuf_flush_of_run)
  show ?thesis
    using da(1-3) s1(2,3) [unfolded e(2)] da(4) lh w m
    by (intro exI [of _ d] exI [of _ a]
        exI [of _ "room_for rm' (length (bytes_of fwrite_fatal_msg))"]) simp
qed


section \<open>Construction\<close>

text \<open>
  C7 (as amended). \<open>init_fifo\<close> checks neither the capacity nor the storage and has no
  way to fail: for every capacity and every storage, also for capacity zero and for a
  storage whose length is not the capacity, it yields a FIFO with
  \<open>rp = wp = used = 0\<close>, the capacity and the storage as given, and a new mutex
  that is not held.
\<close>

theorem init_fifo_unchecked:
  "init_fifo f sz rawbuf =
     \<lparr>mtx = 0, rp = 0, wp = 0, siz = sz, used = 0, data = rawbuf\<rparr>"
  by (simp add: init_fifo_def diag_os_newmtx_def)

text \<open>
  Capacity zero yields a FIFO and no error. So does a capacity of 4 with a storage of
  8 bytes, and that FIFO is usable: it accepts a write of two bytes and returns them
  to the next read.
\<close>

theorem init_fifo_unchecked_counterexample:
  "init_fifo \<lparr>mtx = 3, rp = 5, wp = 7, siz = 9, used = 2, data = [1]\<rparr> 0 [] =
     \<lparr>mtx = 0, rp = 0, wp = 0, siz = 0, used = 0, data = []\<rparr>
   \<and> fifo_wblock
       (init_fifo \<lparr>mtx = 3, rp = 5, wp = 7, siz = 9, used = 2, data = [1]\<rparr> 4
          [0, 0, 0, 0, 0, 0, 0, 0]) [1, 2] 2 =
     Inr (2, \<lparr>mtx = 0, rp = 0, wp = 2, siz = 4, used = 2, data = [1, 2, 0, 0, 0, 0, 0, 0]\<rparr>)
   \<and> fifo_rblock
       \<lparr>mtx = 0, rp = 0, wp = 2, siz = 4, used = 2, data = [1, 2, 0, 0, 0, 0, 0, 0]\<rparr>
       [0, 0] 2 =
     Inr (2, \<lparr>mtx = 0, rp = 2, wp = 2, siz = 4, used = 0, data = [1, 2, 0, 0, 0, 0, 0, 0]\<rparr>,
          [1, 2])"
  by (simp add: init_fifo_def diag_os_newmtx_def fifo_wblock_def fifo_rblock_def
      diag_os_lock_def diag_os_unlock_def wblock_loop.simps rblock_loop.simps)

section \<open>Writing and reading a block\<close>

text \<open>
  C1. For every FIFO within the bounds of the data model and every input of \<open>len\<close>
  bytes, \<open>fifo_wblock\<close> is all or nothing. If fewer than \<open>len\<close> cells are free, it
  returns 0 and the FIFO it leaves is the one it was given: \<open>used\<close>, \<open>rp\<close>, \<open>wp\<close>
  and the storage are unchanged. Otherwise it returns \<open>len\<close>; read as a ring from
  the old \<open>wp\<close>, the storage now holds the input followed by the cells it held
  before, so exactly \<open>len\<close> cells were written, in order, stepping to cell 0 after the
  last cell; \<open>wp\<close> has advanced by \<open>len\<close> modulo the capacity and \<open>used\<close> has
  grown by \<open>len\<close>. The lock is as it was before the call.
\<close>

theorem fifo_wblock_all_or_nothing:
  assumes "fifo_wf f" and "length src = unat len"
  shows "if unat (siz f) - unat (used f) < unat len
         then fifo_wblock f src len = Inr (0, f)
         else (\<exists>f'. fifo_wblock f src len = Inr (len, f') \<and>
                rotate (unat (wp f)) (data f') =
                  src @ drop (unat len) (rotate (unat (wp f)) (data f)) \<and>
                unat (wp f') = (unat (wp f) + unat len) mod unat (siz f) \<and>
                unat (used f') = unat (used f) + unat len \<and>
                rp f' = rp f \<and> siz f' = siz f \<and> mtx f' = mtx f)"
proof (cases "siz f - used f < len")
  case True
  then show ?thesis
    using assms(1) by (simp add: fifo_wblock_reject room_nat)
next
  case False
  have src: "unat len \<le> length src" using assms(2) by simp
  obtain f' where res: "fifo_wblock f src len = Inr (len, f')"
    using fifo_wblock_accept [OF assms(1) src False] by simp
  note post = fifo_wblock_post [OF assms(1) src False res]
  have "rotate (unat (wp f)) (data f') = src @ drop (unat len) (rotate (unat (wp f)) (data f))"
    using post(8) assms(2) by simp
  then show ?thesis
    using False res post assms(1) by (simp add: room_nat)
qed

text \<open>
  With capacity 8 and 8 bytes held, a write of one byte returns 0 and leaves \<open>used\<close>
  at 8; with one byte held and \<open>wp\<close> at cell 7, a write of three bytes is accepted
  and wraps.
\<close>

theorem fifo_wblock_all_or_nothing_witness:
  "fifo_wf \<lparr>mtx = 0, rp = 3, wp = 3, siz = 8, used = 8, data = [1, 2, 3, 4, 5, 6, 7, 8]\<rparr>
   \<and> length [9 :: u8] = unat (1 :: uint)
   \<and> fifo_wblock \<lparr>mtx = 0, rp = 3, wp = 3, siz = 8, used = 8, data = [1, 2, 3, 4, 5, 6, 7, 8]\<rparr> [9] 1 =
       Inr (0, \<lparr>mtx = 0, rp = 3, wp = 3, siz = 8, used = 8, data = [1, 2, 3, 4, 5, 6, 7, 8]\<rparr>)
   \<and> used \<lparr>mtx = 0, rp = 3, wp = 3, siz = 8, used = 8, data = [1, 2, 3, 4, 5, 6, 7, 8]\<rparr> = 8
   \<and> fifo_wf \<lparr>mtx = 0, rp = 6, wp = 7, siz = 8, used = 1, data = [1, 2, 3, 4, 5, 6, 7, 8]\<rparr>
   \<and> length [9, 10, 11 :: u8] = unat (3 :: uint)
   \<and> (\<exists>f'. fifo_wblock \<lparr>mtx = 0, rp = 6, wp = 7, siz = 8, used = 1, data = [1, 2, 3, 4, 5, 6, 7, 8]\<rparr>
               [9, 10, 11] 3 = Inr (3, f')
          \<and> unat (wp f') = 2 \<and> unat (used f') = 4 \<and> rp f' = 6 \<and> siz f' = 8 \<and> mtx f' = 0)"
proof -
  let ?F = "\<lparr>mtx = 0, rp = 3, wp = 3, siz = 8, used = 8, data = [1, 2, 3, 4, 5, 6, 7, 8 :: u8]\<rparr>"
  let ?G = "\<lparr>mtx = 0, rp = 6, wp = 7, siz = 8, used = 1, data = [1, 2, 3, 4, 5, 6, 7, 8 :: u8]\<rparr>"
  have f: "fifo_wf ?F" by (simp add: fifo_wf_def)
  have g: "fifo_wf ?G" by (simp add: fifo_wf_def)
  have l1: "length [9 :: u8] = unat (1 :: uint)" by simp
  have l3: "length [9, 10, 11 :: u8] = unat (3 :: uint)" by simp
  have a: "fifo_wblock ?F [9] 1 = Inr (0, ?F)"
    using fifo_wblock_all_or_nothing [OF f l1] by simp
  have b: "\<exists>f'. fifo_wblock ?G [9, 10, 11] 3 = Inr (3, f')
          \<and> unat (wp f') = 2 \<and> unat (used f') = 4 \<and> rp f' = 6 \<and> siz f' = 8 \<and> mtx f' = 0"
    using fifo_wblock_all_or_nothing [OF g l3] by auto
  show ?thesis using f g l1 l3 a b by simp
qed

text \<open>
  C2. For every FIFO within the bounds of the data model and every requested length
  \<open>len\<close> that the destination has room for, \<open>fifo_rblock\<close> is all or nothing. If
  fewer than \<open>len\<close> bytes are held, it returns 0 and leaves the FIFO and the
  destination as they were. Otherwise it returns \<open>len\<close> and the destination starts
  with the first \<open>len\<close> bytes held, which are the cells \<open>rp\<close>, \<open>rp + 1\<close>, ...
  taken modulo the capacity; these bytes are gone from the bytes held, \<open>rp\<close> has
  advanced by \<open>len\<close> modulo the capacity, \<open>used\<close> has shrunk by \<open>len\<close>, and
  \<open>wp\<close>, the storage and the lock are unchanged. The bytes held are in the order
  in which they were written, so that the first ones are the oldest: on a FIFO that
  satisfies the invariant, every write appends to the bytes held what it accepted.
\<close>

theorem fifo_rblock_all_or_nothing:
  assumes "fifo_wf f" and "unat len \<le> length dest"
  shows "(if unat (used f) < unat len
         then fifo_rblock f dest len = Inr (0, f, dest)
         else (\<exists>f'. fifo_rblock f dest len =
                  Inr (len, f', take (unat len) (held f) @ drop (unat len) dest) \<and>
                take (unat len) (held f) =
                  map (\<lambda>i. data f ! ((unat (rp f) + i) mod unat (siz f))) [0..<unat len] \<and>
                held f' = drop (unat len) (held f) \<and>
                unat (rp f') = (unat (rp f) + unat len) mod unat (siz f) \<and>
                unat (used f') = unat (used f) - unat len \<and>
                wp f' = wp f \<and> siz f' = siz f \<and> data f' = data f \<and> mtx f' = mtx f)) \<and>
         (fifo_inv f \<longrightarrow>
           (\<forall>src wlen n f1. unat wlen \<le> length src \<longrightarrow> fifo_wblock f src wlen = Inr (n, f1) \<longrightarrow>
              held f1 = held f @ take (unat n) src))"
proof (rule conjI)
  show "if unat (used f) < unat len
         then fifo_rblock f dest len = Inr (0, f, dest)
         else (\<exists>f'. fifo_rblock f dest len =
                  Inr (len, f', take (unat len) (held f) @ drop (unat len) dest) \<and>
                take (unat len) (held f) =
                  map (\<lambda>i. data f ! ((unat (rp f) + i) mod unat (siz f))) [0..<unat len] \<and>
                held f' = drop (unat len) (held f) \<and>
                unat (rp f') = (unat (rp f) + unat len) mod unat (siz f) \<and>
                unat (used f') = unat (used f) - unat len \<and>
                wp f' = wp f \<and> siz f' = siz f \<and> data f' = data f \<and> mtx f' = mtx f)"
  proof (cases "used f < len")
    case True
    then show ?thesis
      by (simp add: fifo_rblock_reject word_less_nat_alt)
  next
    case False
    obtain f' where res: "fifo_rblock f dest len =
        Inr (len, f', take (unat len) (held f) @ drop (unat len) dest)"
      using fifo_rblock_accept [OF assms False] by simp
    note post = fifo_rblock_post [OF assms False res]
    have "unat len \<le> unat (used f)" using False by (simp add: word_less_nat_alt)
    then have "take (unat len) (held f) =
        map (\<lambda>i. data f ! ((unat (rp f) + i) mod unat (siz f))) [0..<unat len]"
      using assms(1) by (rule held_cells [rotated])
    then show ?thesis
      using False res post by (simp add: word_less_nat_alt)
  qed
next
  show "fifo_inv f \<longrightarrow>
         (\<forall>src wlen n f1. unat wlen \<le> length src \<longrightarrow> fifo_wblock f src wlen = Inr (n, f1) \<longrightarrow>
            held f1 = held f @ take (unat n) src)"
  proof (intro impI allI)
    fix src wlen n f1
    assume inv: "fifo_inv f" and fits: "unat wlen \<le> length src"
      and res: "fifo_wblock f src wlen = Inr (n, f1)"
    from fifo_wblock_step [OF inv fits] res
    show "held f1 = held f @ take (unat n) src" by auto
  qed
qed

text \<open>
  Three bytes held from cell 6 on, in a FIFO of 8 cells: a read of four bytes is
  rejected, a read of three bytes returns them across the end of the storage, and a
  write of two bytes puts them behind the three.
\<close>

theorem fifo_rblock_all_or_nothing_witness:
  "fifo_wf \<lparr>mtx = 0, rp = 6, wp = 1, siz = 8, used = 3, data = [1, 2, 3, 4, 5, 6, 7, 8]\<rparr>
   \<and> unat (4 :: uint) \<le> length [0, 0, 0, 0, 0 :: u8]
   \<and> fifo_rblock \<lparr>mtx = 0, rp = 6, wp = 1, siz = 8, used = 3, data = [1, 2, 3, 4, 5, 6, 7, 8]\<rparr>
        [0, 0, 0, 0, 0] 4 =
       Inr (0, \<lparr>mtx = 0, rp = 6, wp = 1, siz = 8, used = 3, data = [1, 2, 3, 4, 5, 6, 7, 8]\<rparr>,
            [0, 0, 0, 0, 0])
   \<and> unat (3 :: uint) \<le> length [0, 0, 0, 0, 0 :: u8]
   \<and> (\<exists>f'. fifo_rblock \<lparr>mtx = 0, rp = 6, wp = 1, siz = 8, used = 3, data = [1, 2, 3, 4, 5, 6, 7, 8]\<rparr>
               [0, 0, 0, 0, 0] 3 = Inr (3, f', [7, 8, 1, 0, 0])
          \<and> held f' = [] \<and> unat (rp f') = 1 \<and> unat (used f') = 0 \<and> wp f' = 1 \<and> siz f' = 8
          \<and> mtx f' = 0)
   \<and> fifo_inv \<lparr>mtx = 0, rp = 6, wp = 1, siz = 8, used = 3, data = [1, 2, 3, 4, 5, 6, 7, 8]\<rparr>
   \<and> unat (2 :: uint) \<le> length [9, 10 :: u8]
   \<and> (\<exists>f1. fifo_wblock \<lparr>mtx = 0, rp = 6, wp = 1, siz = 8, used = 3, data = [1, 2, 3, 4, 5, 6, 7, 8]\<rparr>
               [9, 10] 2 = Inr (2, f1)
          \<and> held f1 = [7, 8, 1, 9, 10])"
proof -
  let ?F = "\<lparr>mtx = 0, rp = 6, wp = 1, siz = 8, used = 3, data = [1, 2, 3, 4, 5, 6, 7, 8 :: u8]\<rparr>"
  have f: "fifo_wf ?F" by (simp add: fifo_wf_def)
  have l4: "unat (4 :: uint) \<le> length [0, 0, 0, 0, 0 :: u8]" by simp
  have l3: "unat (3 :: uint) \<le> length [0, 0, 0, 0, 0 :: u8]" by simp
  have h: "held ?F = [7, 8, 1]" by (simp add: held_def rotate_drop_take)
  have a: "fifo_rblock ?F [0, 0, 0, 0, 0] 4 = Inr (0, ?F, [0, 0, 0, 0, 0])"
    using fifo_rblock_all_or_nothing [OF f l4, THEN conjunct1] by simp
  have b: "\<exists>f'. fifo_rblock ?F [0, 0, 0, 0, 0] 3 = Inr (3, f', [7, 8, 1, 0, 0])
          \<and> held f' = [] \<and> unat (rp f') = 1 \<and> unat (used f') = 0 \<and> wp f' = 1 \<and> siz f' = 8
          \<and> mtx f' = 0"
    using fifo_rblock_all_or_nothing [OF f l3, THEN conjunct1] h by auto
  have i: "fifo_inv ?F" using f by (simp add: fifo_inv_def)
  have l2: "unat (2 :: uint) \<le> length [9, 10 :: u8]" by simp
  have "\<not> siz ?F - used ?F < 2" by simp
  from fifo_wblock_accept [OF f l2 this]
  obtain f1 where w: "fifo_wblock ?F [9, 10] 2 = Inr (2, f1)" by blast
  have "held f1 = held ?F @ take (unat (2 :: uint)) [9, 10]"
    using fifo_rblock_all_or_nothing [OF f l3, THEN conjunct2] i l2 w by blast
  then have c: "\<exists>f1. fifo_wblock ?F [9, 10] 2 = Inr (2, f1) \<and> held f1 = [7, 8, 1, 9, 10]"
    using w h by auto
  show ?thesis using f l3 l4 a b i l2 c by simp
qed

section \<open>The invariant of the representation\<close>

text \<open>
  C3. Take a FIFO made by \<open>init_fifo\<close> with a capacity that is not zero and a
  storage of that many bytes, and any list of writes, reads and queries of the amount
  held whose arrays are large enough. After every step (after the first \<open>k\<close>
  operations, for every \<open>k\<close>) no fault has occurred, and: the amount held, as
  \<open>fifo_used\<close> returns it, is the sum of what the writes returned minus the sum of
  what the reads returned (a call returns its length when it is accepted and 0 when
  it is rejected); \<open>used\<close> is at most the capacity; \<open>rp\<close> and \<open>wp\<close> are below the
  capacity; and \<open>wp\<close> is \<open>rp + used\<close> modulo the capacity, the next free cell.
\<close>

theorem fifo_invariant_after_every_step:
  assumes "sz \<noteq> 0" and "length rawbuf = unat sz" and "list_all op_fits ops"
  shows "\<exists>w r f. run_ops (0, 0, init_fifo f0 sz rawbuf) (take k ops) = Inr (w, r, f) \<and>
           int (unat (fst (fifo_used f))) = int w - int r \<and>
           unat (used f) \<le> unat sz \<and> siz f = sz \<and>
           unat (rp f) < unat sz \<and> unat (wp f) < unat sz \<and>
           unat (wp f) = (unat (rp f) + unat (used f)) mod unat sz"
proof -
  have "list_all op_fits (take k ops)"
    using assms(3) by (auto simp: list_all_iff dest: in_set_takeD)
  from run_ops_inv [OF init_fifo_inv(1) [OF assms(1,2)] this, of 0 0 f0]
  obtain w r f where s: "run_ops (0, 0, init_fifo f0 sz rawbuf) (take k ops) = Inr (w, r, f)"
    "fifo_inv f" "siz f = siz (init_fifo f0 sz rawbuf)"
    "w + 0 + unat (used (init_fifo f0 sz rawbuf)) = 0 + r + unat (used f)" by blast
  have wf: "fifo_wf f" using s(2) by (rule fifo_inv_wf)
  have sz: "siz f = sz" using s(3) init_fifo_inv(3) [OF assms(1,2)] by simp
  have "w = r + unat (used f)" using s(4) init_fifo_inv(2) [OF assms(1,2)] by simp
  then have "int (unat (fst (fifo_used f))) = int w - int r"
    by (simp add: fifo_used_step)
  moreover have "unat (wp f) = (unat (rp f) + unat (used f)) mod unat sz"
    using s(2) sz by (simp add: fifo_inv_def)
  ultimately show ?thesis
    using s(1) sz fifo_wf_nat [OF wf] by auto
qed

text \<open>
  A FIFO of four cells: a write of three bytes, a read of two, a query, a write of
  three that wraps, a write of two that is rejected, and a read of all four bytes
  held. Six bytes were written and six were read.
\<close>

theorem fifo_invariant_after_every_step_witness:
  "(4 :: uint) \<noteq> 0 \<and> length [0, 0, 0, 0 :: u8] = unat (4 :: uint)
   \<and> list_all op_fits
        [Try_write [1, 2, 3] 3, Try_read [0, 0] 2, Amount_held, Try_write [4, 5, 6] 3,
         Try_write [7, 8] 2, Try_read [0, 0, 0, 0] 4]
   \<and> (\<exists>w r f.
        run_ops (0, 0, init_fifo \<lparr>mtx = 7, rp = 9, wp = 5, siz = 1, used = 3, data = []\<rparr> 4
                   [0, 0, 0, 0])
          (take 6 [Try_write [1, 2, 3] 3, Try_read [0, 0] 2, Amount_held, Try_write [4, 5, 6] 3,
                   Try_write [7, 8] 2, Try_read [0, 0, 0, 0] 4]) = Inr (w, r, f) \<and>
        int (unat (fst (fifo_used f))) = int w - int r \<and>
        unat (used f) \<le> unat (4 :: uint) \<and> siz f = 4 \<and>
        unat (rp f) < unat (4 :: uint) \<and> unat (wp f) < unat (4 :: uint) \<and>
        unat (wp f) = (unat (rp f) + unat (used f)) mod unat (4 :: uint))
   \<and> run_ops (0, 0, init_fifo \<lparr>mtx = 7, rp = 9, wp = 5, siz = 1, used = 3, data = []\<rparr> 4
                   [0, 0, 0, 0])
          [Try_write [1, 2, 3] 3, Try_read [0, 0] 2, Amount_held, Try_write [4, 5, 6] 3,
           Try_write [7, 8] 2, Try_read [0, 0, 0, 0] 4] =
        Inr (6, 6, \<lparr>mtx = 1, rp = 2, wp = 2, siz = 4, used = 0, data = [5, 6, 3, 4]\<rparr>)"
proof -
  let ?ops = "[Try_write [1, 2, 3] 3, Try_read [0, 0] 2, Amount_held, Try_write [4, 5, 6] 3,
               Try_write [7, 8] 2, Try_read [0, 0, 0, 0] 4]"
  have h1: "(4 :: uint) \<noteq> 0" by simp
  have h2: "length [0, 0, 0, 0 :: u8] = unat (4 :: uint)" by simp
  have h3: "list_all op_fits ?ops" by simp
  note c = fifo_invariant_after_every_step [OF h1 h2 h3,
      of "\<lparr>mtx = 7, rp = 9, wp = 5, siz = 1, used = 3, data = []\<rparr>" 6]
  have e: "run_ops (0, 0, init_fifo \<lparr>mtx = 7, rp = 9, wp = 5, siz = 1, used = 3, data = []\<rparr> 4
                   [0, 0, 0, 0]) ?ops =
        Inr (6, 6, \<lparr>mtx = 1, rp = 2, wp = 2, siz = 4, used = 0, data = [5, 6, 3, 4]\<rparr>)"
    by (simp add: init_fifo_def diag_os_newmtx_def fifo_wblock_def fifo_rblock_def
        fifo_used_def diag_os_lock_def diag_os_unlock_def wblock_loop.simps rblock_loop.simps)
  show ?thesis
    by (intro conjI h1 h2 h3 c e)
qed

section \<open>Round trip\<close>

text \<open>
  C4. Take a FIFO made by \<open>init_fifo\<close> with a capacity that is not zero and a
  storage of that many bytes, and byte strings \<open>ss\<close> that \<open>fifo_wblock\<close> accepts one
  after the other (each call returns the length of its string). Then any list of read
  requests whose lengths add up to the number of bytes written (each request with a
  destination large enough) is served without a rejection, and the bytes the reads
  return, in order, are the concatenation of \<open>ss\<close>, however the requests cut it.
  A length that adds up with the others to the total is at most the amount held when
  its turn comes. Lemma \<open>fifo_round_trip_from\<close> is the same statement from any
  state that satisfies the invariant, wherever \<open>rp\<close> and \<open>wp\<close> stand, so the
  positions may wrap at any byte.
\<close>

theorem fifo_round_trip:
  assumes "sz \<noteq> 0" and "length rawbuf = unat sz"
    and "write_all (init_fifo f0 sz rawbuf) ss = Inr (map length ss, f1)"
    and "list_all req_fits reqs"
    and "sum_list (map req_len reqs) = length (concat ss)"
  shows "\<exists>ps f2. read_all f1 reqs = Inr (ps, f2) \<and> concat ps = concat ss \<and>
           map length ps = map req_len reqs \<and> used f2 = 0"
proof -
  note i = init_fifo_inv [OF assms(1,2), of f0]
  have "sum_list (map req_len reqs) = unat (used (init_fifo f0 sz rawbuf)) + length (concat ss)"
    using assms(5) i(2) by simp
  from fifo_round_trip_from [OF i(1) assms(3,4) this]
  show ?thesis using i(4) by simp
qed

text \<open>
  Four strings of 2, 1, 0 and 1 bytes fill a FIFO of four cells; reads of 3 bytes and
  of 1 byte return them.
\<close>

theorem fifo_round_trip_witness:
  "(4 :: uint) \<noteq> 0 \<and> length [0, 0, 0, 0 :: u8] = unat (4 :: uint)
   \<and> write_all (init_fifo \<lparr>mtx = 7, rp = 9, wp = 5, siz = 1, used = 3, data = []\<rparr> 4
        [0, 0, 0, 0]) [[1, 2], [3], [], [4]] =
       Inr (map length [[1, 2], [3], [], [4 :: u8]],
            \<lparr>mtx = 0, rp = 0, wp = 0, siz = 4, used = 4, data = [1, 2, 3, 4]\<rparr>)
   \<and> list_all req_fits [([0, 0, 0], 3), ([0], 1)]
   \<and> sum_list (map req_len [([0, 0, 0], 3), ([0], 1)]) =
       length (concat [[1, 2], [3], [], [4 :: u8]])
   \<and> (\<exists>ps f2.
        read_all \<lparr>mtx = 0, rp = 0, wp = 0, siz = 4, used = 4, data = [1, 2, 3, 4]\<rparr>
          [([0, 0, 0], 3), ([0], 1)] = Inr (ps, f2) \<and>
        concat ps = concat [[1, 2], [3], [], [4]] \<and>
        map length ps = map req_len [([0, 0, 0], 3), ([0], 1)] \<and> used f2 = 0)"
proof -
  have h1: "(4 :: uint) \<noteq> 0" by simp
  have h2: "length [0, 0, 0, 0 :: u8] = unat (4 :: uint)" by simp
  have h3: "write_all (init_fifo \<lparr>mtx = 7, rp = 9, wp = 5, siz = 1, used = 3, data = []\<rparr> 4
        [0, 0, 0, 0]) [[1, 2], [3], [], [4]] =
       Inr (map length [[1, 2], [3], [], [4 :: u8]],
            \<lparr>mtx = 0, rp = 0, wp = 0, siz = 4, used = 4, data = [1, 2, 3, 4]\<rparr>)"
    by (simp add: init_fifo_def diag_os_newmtx_def fifo_wblock_def
        diag_os_lock_def diag_os_unlock_def wblock_loop.simps)
  have h4: "list_all req_fits [([0, 0, 0 :: u8], 3 :: uint), ([0], 1)]"
    by (simp add: req_pair)
  have h5: "sum_list (map req_len [([0, 0, 0 :: u8], 3 :: uint), ([0], 1)]) =
       length (concat [[1, 2], [3], [], [4 :: u8]])"
    by (simp add: req_pair)
  show ?thesis
    by (intro conjI h1 h2 h3 h4 h5 fifo_round_trip [OF h1 h2 h3 h4 h5])
qed

section \<open>The lock\<close>

text \<open>
  C6. \<open>fifo_wblock\<close> and \<open>fifo_rblock\<close> leave the lock as they found it, on the
  path of a rejection and on the path of a copy (lemmas \<open>fifo_wblock_releases_lock\<close>
  and \<open>fifo_rblock_releases_lock\<close>). \<open>fifo_used\<close> does not: for every FIFO it
  returns with the lock held once more than before the call; on a new FIFO the count
  goes from 0 to 1.
\<close>

theorem fifo_used_leaves_lock_held:
  "fifo_used f = (used f, f\<lparr>mtx := Suc (mtx f)\<rparr>) \<and>
   fifo_used \<lparr>mtx = 0, rp = 0, wp = 0, siz = 8, used = 0, data = [0, 0, 0, 0, 0, 0, 0, 0]\<rparr> =
     (0, \<lparr>mtx = 1, rp = 0, wp = 0, siz = 8, used = 0, data = [0, 0, 0, 0, 0, 0, 0, 0]\<rparr>)"
  by (simp add: fifo_used_def diag_os_lock_def Let_def)

section \<open>The drain\<close>




text \<open>
  C10. In a sequential run of the drain on a FIFO within the bounds of the data model,
  the read of an iteration asks for \<open>oneshot\<close> bytes, which is at most the number of
  bytes held, and \<open>fifo_rblock\<close> returns exactly \<open>oneshot\<close>; the loop, started with
  \<open>remsiz\<close> equal to the amount held, ends without a fault at a \<open>return\<close> other than
  the one of the branch "could not read fifo", and so does \<open>membuf_flush\<close> as a
  whole.
\<close>

theorem fifo_read_fatal_unreachable:
  assumes "fifo_wf (fifo (membuf s))" and "length tempbuf = unat MEMBUF_CHUNKS"
  shows "unat (if MEMBUF_CHUNKS < used (fifo (membuf s)) then MEMBUF_CHUNKS
               else used (fifo (membuf s))) \<le> unat (used (fifo (membuf s))) \<and>
         (\<exists>f1 tb1.
            fifo_rblock (fifo (membuf s)) tempbuf
              (if MEMBUF_CHUNKS < used (fifo (membuf s)) then MEMBUF_CHUNKS
               else used (fifo (membuf s))) =
            Inr (if MEMBUF_CHUNKS < used (fifo (membuf s)) then MEMBUF_CHUNKS
                 else used (fifo (membuf s)), f1, tb1)) \<and>
         (\<exists>ex s'. membuf_flush_loop tempbuf (used (fifo (membuf s))) s = Inr (ex, s') \<and>
                  ex \<noteq> Fifo_read_fatal) \<and>
         (\<exists>ex s'. membuf_flush_run tempbuf s = Inr (ex, s') \<and> ex \<noteq> Fifo_read_fatal)"
proof -
  let ?f = "fifo (membuf s)"
  let ?one = "if MEMBUF_CHUNKS < used ?f then MEMBUF_CHUNKS else used ?f"
  let ?c = "unat MEMBUF_CHUNKS"
  let ?rm = "room (out_file (membuf s))"
  let ?h = "held (fifo (membuf s))"
  have uo: "unat ?one = min (unat (used ?f)) ?c" by (rule oneshot_nat)
  have fit: "\<not> used ?f < ?one" by auto
  have dest: "unat ?one \<le> length tempbuf" using assms(2) uo by simp
  have a: "unat ?one \<le> unat (used ?f)" using uo by simp
  have b: "\<exists>f1 tb1. fifo_rblock ?f tempbuf ?one = Inr (?one, f1, tb1)"
    using fifo_rblock_accept [OF assms(1) dest fit] by blast
  obtain ex n ws rm' where R: "drain_abs ?c ?rm ?h = (ex, n, ws, rm')"
    by (cases "drain_abs ?c ?rm ?h") auto
  have ne: "ex \<noteq> Fifo_read_fatal"
    using drain_abs_not_read_fatal [of ?c ?rm ?h] R by simp
  have c: "\<exists>ex s'. membuf_flush_loop tempbuf (used ?f) s = Inr (ex, s') \<and> ex \<noteq> Fifo_read_fatal"
    using flush_loop_refines [OF assms R] ne by blast
  have d: "\<exists>ex s'. membuf_flush_run tempbuf s = Inr (ex, s') \<and> ex \<noteq> Fifo_read_fatal"
    using flush_run_refines [OF assms R] ne by blast
  show ?thesis using a b c d by blast
qed

text \<open>Three bytes held; the stream accepts two of them only, and still no read fails.\<close>

theorem fifo_read_fatal_unreachable_witness:
  "fifo_wf \<lparr>mtx = 0, rp = 6, wp = 1, siz = 8, used = 3, data = [1, 2, 3, 4, 5, 6, 7, 8]\<rparr>
   \<and> length (replicate 4096 (0 :: u8)) = unat MEMBUF_CHUNKS
   \<and> unat (3 :: uint) \<le> unat (3 :: uint)
   \<and> (\<exists>f1 tb1.
        fifo_rblock \<lparr>mtx = 0, rp = 6, wp = 1, siz = 8, used = 3, data = [1, 2, 3, 4, 5, 6, 7, 8]\<rparr>
          (replicate 4096 0) 3 = Inr (3, f1, tb1))
   \<and> (\<exists>ex s'. membuf_flush_loop (replicate 4096 0) 3
               \<lparr>membuf = \<lparr>out_file = \<lparr>writes = [], room = [2]\<rparr>,
                           fifo = \<lparr>mtx = 0, rp = 6, wp = 1, siz = 8, used = 3,
                                   data = [1, 2, 3, 4, 5, 6, 7, 8]\<rparr>\<rparr>,
                stdout = []\<rparr> = Inr (ex, s') \<and> ex \<noteq> Fifo_read_fatal)
   \<and> (\<exists>ex s'. membuf_flush_run (replicate 4096 0)
               \<lparr>membuf = \<lparr>out_file = \<lparr>writes = [], room = [2]\<rparr>,
                           fifo = \<lparr>mtx = 0, rp = 6, wp = 1, siz = 8, used = 3,
                                   data = [1, 2, 3, 4, 5, 6, 7, 8]\<rparr>\<rparr>,
                stdout = []\<rparr> = Inr (ex, s') \<and> ex \<noteq> Fifo_read_fatal)"
proof -
  let ?F = "\<lparr>mtx = 0, rp = 6, wp = 1, siz = 8, used = 3, data = [1, 2, 3, 4, 5, 6, 7, 8 :: u8]\<rparr>"
  let ?S = "\<lparr>membuf = \<lparr>out_file = \<lparr>writes = [], room = [2]\<rparr>, fifo = ?F\<rparr>, stdout = []\<rparr>"
  have h1: "fifo_wf ?F" by (simp add: fifo_wf_def)
  have h1': "fifo_wf (fifo (membuf ?S))" using h1 by simp
  have h2: "length (replicate 4096 (0 :: u8)) = unat MEMBUF_CHUNKS"
    by (simp add: unat_MEMBUF_CHUNKS)
  have one: "(if MEMBUF_CHUNKS < (3 :: uint) then MEMBUF_CHUNKS else 3) = 3"
    by (simp add: MEMBUF_CHUNKS_def)
  show ?thesis
    using h1 fifo_read_fatal_unreachable [OF h1' h2] by (simp add: MEMBUF_CHUNKS_def)
qed

text \<open>
  C8 (as amended). Suppose that, during a run of \<open>membuf_flush\<close> on a FIFO within the
  bounds of the data model, the stream accepts each of the first \<open>length pre\<close> calls
  of \<open>fwrite\<close> in full, that bytes are still held after these chunks, and that on the
  next call the stream accepts \<open>q\<close> bytes, fewer than the chunk. Then the run ends at
  the \<open>return\<close> of the branch of the failed \<open>fwrite\<close>. The failed chunk has been
  taken out of the FIFO, but only its first \<open>q\<close> bytes are on the stream; what the
  FIFO still holds is what came after the failed chunk, so the other bytes of that
  chunk are neither held nor delivered. Nothing is read and no chunk is written
  after the short write: the only later operation on the stream is the attempt to
  print "FATAL : fwrite problem !" to that same stream. The caller of \<open>membuf_flush\<close>
  receives the state and no error.
\<close>

theorem fwrite_failure_aborts_drain:
  assumes "fifo_wf (fifo (membuf s))" and "length tempbuf = unat MEMBUF_CHUNKS"
    and "room (out_file (membuf s)) = pre @ q # rest"
    and "list_all (\<lambda>r. unat MEMBUF_CHUNKS \<le> r) pre"
    and "length pre * unat MEMBUF_CHUNKS < length (held (fifo (membuf s)))"
    and "q < min (length (held (fifo (membuf s))) - length pre * unat MEMBUF_CHUNKS)
               (unat MEMBUF_CHUNKS)"
  shows "\<exists>s'. membuf_flush_run tempbuf s = Inr (Fwrite_fatal, s') \<and>
           membuf_flush tempbuf s = Inr s' \<and>
           held (fifo (membuf s')) =
             drop (length pre * unat MEMBUF_CHUNKS +
                   min (length (held (fifo (membuf s))) - length pre * unat MEMBUF_CHUNKS)
                       (unat MEMBUF_CHUNKS))
               (held (fifo (membuf s))) \<and>
           unat (used (fifo (membuf s'))) =
             length (held (fifo (membuf s))) -
             (length pre * unat MEMBUF_CHUNKS +
              min (length (held (fifo (membuf s))) - length pre * unat MEMBUF_CHUNKS)
                  (unat MEMBUF_CHUNKS)) \<and>
           writes (out_file (membuf s')) =
             writes (out_file (membuf s)) @
             chunks (unat MEMBUF_CHUNKS)
               (take (length pre * unat MEMBUF_CHUNKS) (held (fifo (membuf s)))) @
             [take q (drop (length pre * unat MEMBUF_CHUNKS) (held (fifo (membuf s)))),
              take (room_for rest (length (bytes_of fwrite_fatal_msg)))
                (bytes_of fwrite_fatal_msg)]"
proof -
  let ?c = "unat MEMBUF_CHUNKS"
  let ?h = "held (fifo (membuf s))"
  let ?d = "length pre * ?c"
  let ?k = "min (length ?h - ?d) ?c"
  have cnz: "?c \<noteq> 0" by (simp add: unat_MEMBUF_CHUNKS)
  have R: "drain_abs ?c (room (out_file (membuf s))) ?h =
     (Fwrite_fatal, ?d + ?k, chunks ?c (take ?d ?h) @ [take q (drop ?d ?h)], rest)"
    unfolding assms(3) using cnz assms(4-6) by (rule drain_abs_short_at)
  from flush_run_refines [OF assms(1,2) R]
  obtain s' where s': "membuf_flush_run tempbuf s = Inr (Fwrite_fatal, s')"
    "held (fifo (membuf s')) = drop (?d + ?k) ?h"
    "unat (used (fifo (membuf s'))) = unat (used (fifo (membuf s))) - (?d + ?k)"
    "writes (out_file (membuf s')) =
       writes (out_file (membuf s)) @ (chunks ?c (take ?d ?h) @ [take q (drop ?d ?h)]) @
       (if Fwrite_fatal = Fwrite_fatal
        then [take (room_for rest (length (bytes_of fwrite_fatal_msg)))
                (bytes_of fwrite_fatal_msg)]
        else [])"
    by blast
  have lh: "length ?h = unat (used (fifo (membuf s)))"
    using assms(1) by (rule length_held)
  have m: "membuf_flush tempbuf s = Inr s'"
    using s'(1) by (rule membuf_flush_of_run)
  show ?thesis
    using s'(1,2) s'(3) [folded lh] s'(4) m by (intro exI [of _ s']) simp
qed

text \<open>
  Three bytes held and a stream that takes one byte of the first write: the run ends in
  the branch of the failed \<open>fwrite\<close>, the FIFO is empty, and the stream has the byte 7
  and the message; bytes 8 and 1 are lost. Then 5000 bytes held and a stream that
  takes the first chunk and ten bytes of the second: 894 bytes are lost.
\<close>

theorem fwrite_failure_aborts_drain_witness:
  "fifo_wf \<lparr>mtx = 0, rp = 6, wp = 1, siz = 8, used = 3, data = [1, 2, 3, 4, 5, 6, 7, 8]\<rparr>
   \<and> length (replicate 4096 (0 :: u8)) = unat MEMBUF_CHUNKS
   \<and> [1 :: nat] = [] @ 1 # []
   \<and> list_all (\<lambda>r. unat MEMBUF_CHUNKS \<le> r) []
   \<and> length ([] :: nat list) * unat MEMBUF_CHUNKS < length [7, 8, 1 :: u8]
   \<and> (1 :: nat) < min (length [7, 8, 1 :: u8] - length ([] :: nat list) * unat MEMBUF_CHUNKS)
                     (unat MEMBUF_CHUNKS)
   \<and> (\<exists>s'. membuf_flush_run (replicate 4096 0)
               \<lparr>membuf = \<lparr>out_file = \<lparr>writes = [], room = [1]\<rparr>,
                           fifo = \<lparr>mtx = 0, rp = 6, wp = 1, siz = 8, used = 3,
                                   data = [1, 2, 3, 4, 5, 6, 7, 8]\<rparr>\<rparr>,
                stdout = []\<rparr> = Inr (Fwrite_fatal, s') \<and>
             membuf_flush (replicate 4096 0)
               \<lparr>membuf = \<lparr>out_file = \<lparr>writes = [], room = [1]\<rparr>,
                           fifo = \<lparr>mtx = 0, rp = 6, wp = 1, siz = 8, used = 3,
                                   data = [1, 2, 3, 4, 5, 6, 7, 8]\<rparr>\<rparr>,
                stdout = []\<rparr> = Inr s' \<and>
             held (fifo (membuf s')) = [] \<and> unat (used (fifo (membuf s'))) = 0 \<and>
             writes (out_file (membuf s')) = [[7], bytes_of fwrite_fatal_msg])
   \<and> fifo_wf \<lparr>mtx = 0, rp = 0, wp = 0, siz = 5000, used = 5000, data = replicate 5000 7\<rparr>
   \<and> [4096, 10 :: nat] = [4096] @ 10 # []
   \<and> list_all (\<lambda>r. unat MEMBUF_CHUNKS \<le> r) [4096]
   \<and> length [4096 :: nat] * unat MEMBUF_CHUNKS < length (replicate 5000 (7 :: u8))
   \<and> (10 :: nat) < min (length (replicate 5000 (7 :: u8)) - length [4096 :: nat] * unat MEMBUF_CHUNKS)
                      (unat MEMBUF_CHUNKS)
   \<and> (\<exists>s'. membuf_flush_run (replicate 4096 0)
               \<lparr>membuf = \<lparr>out_file = \<lparr>writes = [], room = [4096, 10]\<rparr>,
                           fifo = \<lparr>mtx = 0, rp = 0, wp = 0, siz = 5000, used = 5000,
                                   data = replicate 5000 7\<rparr>\<rparr>,
                stdout = []\<rparr> = Inr (Fwrite_fatal, s') \<and>
             held (fifo (membuf s')) = [] \<and> unat (used (fifo (membuf s'))) = 0 \<and>
             writes (out_file (membuf s')) =
               chunks 4096 (replicate 4096 7) @ [replicate 10 7, bytes_of fwrite_fatal_msg])"
proof -
  let ?F = "\<lparr>mtx = 0, rp = 6, wp = 1, siz = 8, used = 3, data = [1, 2, 3, 4, 5, 6, 7, 8 :: u8]\<rparr>"
  let ?S = "\<lparr>membuf = \<lparr>out_file = \<lparr>writes = [], room = [1]\<rparr>, fifo = ?F\<rparr>, stdout = []\<rparr>"
  let ?G = "\<lparr>mtx = 0, rp = 0, wp = 0, siz = 5000, used = 5000, data = replicate 5000 (7 :: u8)\<rparr>"
  let ?T = "\<lparr>membuf = \<lparr>out_file = \<lparr>writes = [], room = [4096, 10]\<rparr>, fifo = ?G\<rparr>,
            stdout = []\<rparr>"
  have c: "unat MEMBUF_CHUNKS = 4096" by (rule unat_MEMBUF_CHUNKS)
  have h2: "length (replicate 4096 (0 :: u8)) = unat MEMBUF_CHUNKS" by (simp add: c)
  have f1: "fifo_wf ?F" by (simp add: fifo_wf_def)
  have f1': "fifo_wf (fifo (membuf ?S))" using f1 by simp
  have hf: "held (fifo (membuf ?S)) = [7, 8, 1]" by (simp add: held_example)
  have f3: "room (out_file (membuf ?S)) = [] @ 1 # []" by simp
  have f4: "list_all (\<lambda>r. unat MEMBUF_CHUNKS \<le> r) []" by simp
  have f5: "length ([] :: nat list) * unat MEMBUF_CHUNKS < length (held (fifo (membuf ?S)))"
    unfolding hf by simp
  have f6: "(1 :: nat) < min (length (held (fifo (membuf ?S))) -
               length ([] :: nat list) * unat MEMBUF_CHUNKS) (unat MEMBUF_CHUNKS)"
    unfolding hf by (simp add: c)
  have a: "\<exists>s'. membuf_flush_run (replicate 4096 0) ?S = Inr (Fwrite_fatal, s') \<and>
             membuf_flush (replicate 4096 0) ?S = Inr s' \<and>
             held (fifo (membuf s')) = [] \<and> unat (used (fifo (membuf s'))) = 0 \<and>
             writes (out_file (membuf s')) = [[7], bytes_of fwrite_fatal_msg]"
    using fwrite_failure_aborts_drain [OF f1' h2 f3 f4 f5 f6]
    unfolding hf by (simp add: c chunks_Nil room_for_def)
  have g1: "fifo_wf ?G" by (simp add: fifo_wf_def)
  have g1': "fifo_wf (fifo (membuf ?T))" using g1 by simp
  have hg: "held (fifo (membuf ?T)) = replicate 5000 7" by (simp add: held_def)
  have g3: "room (out_file (membuf ?T)) = [4096] @ 10 # []" by simp
  have g4: "list_all (\<lambda>r. unat MEMBUF_CHUNKS \<le> r) [4096]" by (simp add: c)
  have g5: "length [4096 :: nat] * unat MEMBUF_CHUNKS < length (held (fifo (membuf ?T)))"
    unfolding hg by (simp add: c)
  have g6: "(10 :: nat) < min (length (held (fifo (membuf ?T))) -
               length [4096 :: nat] * unat MEMBUF_CHUNKS) (unat MEMBUF_CHUNKS)"
    unfolding hg by (simp add: c)
  have b: "\<exists>s'. membuf_flush_run (replicate 4096 0) ?T = Inr (Fwrite_fatal, s') \<and>
             held (fifo (membuf s')) = [] \<and> unat (used (fifo (membuf s'))) = 0 \<and>
             writes (out_file (membuf s')) =
               chunks 4096 (replicate 4096 7) @ [replicate 10 7, bytes_of fwrite_fatal_msg]"
    using fwrite_failure_aborts_drain [OF g1' h2 g3 g4 g5 g6]
    unfolding hg by (simp add: c room_for_def) blast
  show ?thesis
    using f1 h2 a g1 b by (simp add: c)
qed

text \<open>
  On that input the failed write is not reported to the caller: \<open>membuf_flush\<close>
  returns normally, as it does after a complete drain, with the state alone.
\<close>

theorem fwrite_failure_not_surfaced_counterexample:
  "membuf_flush_run (replicate 4096 0)
       \<lparr>membuf = \<lparr>out_file = \<lparr>writes = [], room = [1]\<rparr>,
                   fifo = \<lparr>mtx = 0, rp = 6, wp = 1, siz = 8, used = 3,
                           data = [1, 2, 3, 4, 5, 6, 7, 8]\<rparr>\<rparr>,
        stdout = []\<rparr> =
       Inr (Fwrite_fatal,
         \<lparr>membuf = \<lparr>out_file = \<lparr>writes = [[7], bytes_of fwrite_fatal_msg], room = []\<rparr>,
                     fifo = \<lparr>mtx = 1, rp = 1, wp = 1, siz = 8, used = 0,
                             data = [1, 2, 3, 4, 5, 6, 7, 8]\<rparr>\<rparr>,
          stdout = []\<rparr>)
   \<and> membuf_flush (replicate 4096 0)
       \<lparr>membuf = \<lparr>out_file = \<lparr>writes = [], room = [1]\<rparr>,
                   fifo = \<lparr>mtx = 0, rp = 6, wp = 1, siz = 8, used = 3,
                           data = [1, 2, 3, 4, 5, 6, 7, 8]\<rparr>\<rparr>,
        stdout = []\<rparr> =
       Inr \<lparr>membuf = \<lparr>out_file = \<lparr>writes = [[7], bytes_of fwrite_fatal_msg], room = []\<rparr>,
                     fifo = \<lparr>mtx = 1, rp = 1, wp = 1, siz = 8, used = 0,
                             data = [1, 2, 3, 4, 5, 6, 7, 8]\<rparr>\<rparr>,
          stdout = []\<rparr>"
  using fwrite_failure_run by (simp add: membuf_flush_def)

section \<open>The output callback\<close>



end
